theory Spec2Isabelle
  imports Main "HOL-Library.Multiset"
begin

section \<open>Values, signals and observers\<close>

text \<open>
  The library of \<^verbatim>\<open>src/core/reactive.ts\<close> is embedded with its closures made data:
  an Observable is a term of type \<open>obs\<close> (one constructor per creation function and per
  operator), an Observer built by an operator is a frame of a \<open>sink\<close>, a Subscription is a
  term of type \<open>sub\<close>, and every variable a closure captures and mutates
  (\<^verbatim>\<open>i\<close>, \<^verbatim>\<open>isdisposed\<close>, \<^verbatim>\<open>completeCount\<close>, \<^verbatim>\<open>subscriptions\<close>, \<^verbatim>\<open>values\<close>) lives in the
  state, at the address of the activation of the subscribe function that declared it
  (the \<^verbatim>\<open>values\<close> arrays of \<^verbatim>\<open>join\<close> have a store and an allocator of their own).
  The host's timers and event listeners are queues of the state as well; the handle of an
  interval timer is the address of the activation that started it.
\<close>

datatype val = Num int | Str string | Arr "val list"

text \<open>The three calls an Observer accepts: \<^verbatim>\<open>next(value)\<close>, \<^verbatim>\<open>error(message)\<close>, \<^verbatim>\<open>complete()\<close>.\<close>

datatype signal = Next val | Error string | Complete

text \<open>
  The only fault the core can raise by itself: \<^verbatim>\<open>take\<close> reads its \<^verbatim>\<open>const subscription\<close>
  before the declaration has been initialised.
\<close>

datatype fault = UninitialisedSubscription

text \<open>
  Class \<^verbatim>\<open>Observer\<close>: three optional callbacks. The callbacks of the final subscriber
  act on the subscriber's own world \<open>'u\<close>.
\<close>

record 'u observer =
  cb_next :: "(val \<Rightarrow> 'u \<Rightarrow> 'u) option"
  cb_error :: "(string \<Rightarrow> 'u \<Rightarrow> 'u) option"
  cb_complete :: "('u \<Rightarrow> 'u) option"

definition observer_next :: "'u observer \<Rightarrow> val \<Rightarrow> 'u \<Rightarrow> 'u" where
  "observer_next ob v u = (case cb_next ob of Some f \<Rightarrow> f v u | None \<Rightarrow> u)"

definition observer_error :: "'u observer \<Rightarrow> string \<Rightarrow> 'u \<Rightarrow> 'u" where
  "observer_error ob m u = (case cb_error ob of Some f \<Rightarrow> f m u | None \<Rightarrow> u)"

definition observer_complete :: "'u observer \<Rightarrow> 'u \<Rightarrow> 'u" where
  "observer_complete ob u = (case cb_complete ob of Some f \<Rightarrow> f u | None \<Rightarrow> u)"

text \<open>A subscriber that writes down every call it receives, in order.\<close>

definition recorder :: "signal list observer" where
  "recorder = \<lparr>cb_next = Some (\<lambda>v l. l @ [Next v]),
               cb_error = Some (\<lambda>m l. l @ [Error m]),
               cb_complete = Some (\<lambda>l. l @ [Complete])\<rparr>"

section \<open>Subject\<close>

text \<open>
  Class \<^verbatim>\<open>Subject\<close>: the array \<^verbatim>\<open>observers\<close>, each Observer with the reference that
  \<^verbatim>\<open>new Observer\<close> gave it (\<open>next_ref\<close> is the allocator). The Subscription that
  \<^verbatim>\<open>subscribe\<close> returns is represented by the reference its dispose filters out.
\<close>

record 'u subject =
  observers :: "(nat \<times> 'u observer) list"
  next_ref :: nat

definition new_subject :: "'u subject" where
  "new_subject = \<lparr>observers = [], next_ref = 0\<rparr>"

definition subject_subscribe :: "'u observer \<Rightarrow> 'u subject \<Rightarrow> nat \<times> 'u subject" where
  "subject_subscribe ob s =
     (let r = next_ref s
      in (r, s\<lparr>observers := observers s @ [(r, ob)], next_ref := r + 1\<rparr>))"

definition subject_dispose :: "nat \<Rightarrow> 'u subject \<Rightarrow> 'u subject" where
  "subject_dispose r s = s\<lparr>observers := filter (\<lambda>(r', ob). r' \<noteq> r) (observers s)\<rparr>"

definition subject_next :: "val \<Rightarrow> 'u subject \<Rightarrow> 'u \<Rightarrow> 'u" where
  "subject_next v s u = fold (\<lambda>(r, ob). observer_next ob v) (observers s) u"

definition subject_error :: "string \<Rightarrow> 'u subject \<Rightarrow> 'u \<Rightarrow> 'u" where
  "subject_error m s u = fold (\<lambda>(r, ob). observer_error ob m) (observers s) u"

definition subject_complete :: "'u subject \<Rightarrow> 'u \<Rightarrow> 'u" where
  "subject_complete s u = fold (\<lambda>(r, ob). observer_complete ob) (observers s) u"

text \<open>A recording subscriber of a Subject that signs what it records with a tag.\<close>

definition tagged :: "nat \<Rightarrow> (nat \<times> val) list observer" where
  "tagged i = \<lparr>cb_next = Some (\<lambda>v l. l @ [(i, v)]), cb_error = None, cb_complete = None\<rparr>"

text \<open>Every reference held by the Subject was handed out by its allocator.\<close>

definition subject_ok :: "'u subject \<Rightarrow> bool" where
  "subject_ok s = list_all (\<lambda>(r, ob). r < next_ref s) (observers s)"

section \<open>Observables, subscriptions and operator observers\<close>

text \<open>
  One constructor per creation function (\<^verbatim>\<open>empty\<close>, \<^verbatim>\<open>of\<close>, \<^verbatim>\<open>from\<close>, \<^verbatim>\<open>interval\<close>,
  \<^verbatim>\<open>fromEvent\<close>, \<^verbatim>\<open>merge\<close>) and per operator (\<^verbatim>\<open>take\<close>, \<^verbatim>\<open>map\<close>, \<^verbatim>\<open>mergeMap\<close>,
  \<^verbatim>\<open>join\<close>). \<open>Custom tag sync batches\<close> is an Observable built directly with the
  constructor of the class, \<^verbatim>\<open>new Observable(obs => ...)\<close>, whose subscribe function
  sends the signals \<open>sync\<close> to the observer before it returns, schedules one zero-delay
  timer per element of \<open>batches\<close> that sends that batch, and returns
  \<^verbatim>\<open>new Subscription(() => teardown(tag))\<close> for a host action \<^verbatim>\<open>teardown\<close>.
\<close>

datatype obs =
    Empty
  | Of val
  | From "val list"
  | Interval nat
  | FromEvent nat string
  | Merge "obs list"
  | Take obs int
  | Map obs "val \<Rightarrow> val"
  | MergeMap obs "val \<Rightarrow> obs"
  | Join obs
  | Custom nat "signal list" "signal list list"

text \<open>
  Class \<^verbatim>\<open>Subscription\<close> holds one dispose function. The dispose functions the library
  builds are: the flag guard of \<^verbatim>\<open>empty\<close>, \<^verbatim>\<open>of\<close> and \<^verbatim>\<open>from\<close> (\<open>SubFlag\<close>), the guarded
  \<^verbatim>\<open>clearInterval\<close> (\<open>SubInterval\<close>), the guarded \<^verbatim>\<open>removeEventListener\<close> (\<open>SubEvent\<close>),
  \<^verbatim>\<open>() => subscription.dispose()\<close> of \<^verbatim>\<open>take\<close>, \<^verbatim>\<open>map\<close> and \<^verbatim>\<open>join\<close> (\<open>SubUp\<close>), and
  \<^verbatim>\<open>() => subscriptions.forEach(s => s.dispose())\<close> of \<^verbatim>\<open>merge\<close> and \<^verbatim>\<open>mergeMap\<close>
  (\<open>SubAll\<close>, with the address of the array).
\<close>

datatype sub =
    SubFlag nat
  | SubInterval nat
  | SubEvent nat nat string
  | SubUp sub
  | SubAll nat
  | SubCustom nat

text \<open>
  The Observer each operator hands to its upstream. \<open>Subscriber\<close> is the Observer that
  \<^verbatim>\<open>Observable.subscribe\<close> builds from the caller's callbacks. An operator's
  \<^verbatim>\<open>new Observer(obs.next, obs.error, obs.complete)\<close> forwards each call unchanged to
  \<^verbatim>\<open>obs\<close> and is identified with it.
\<close>

datatype 'u sink =
    Subscriber "'u observer"
  | TakeSink nat int "'u sink"
  | MapSink "val \<Rightarrow> val" "'u sink"
  | JoinSink nat "'u sink"
  | MergeMapOuter nat "val \<Rightarrow> obs" "'u sink"
  | MergeMapInner nat "'u sink"
  | MergeSink nat "'u sink"

text \<open>Callbacks handed to \<^verbatim>\<open>setTimeout(..., 0)\<close> by \<^verbatim>\<open>of\<close>, \<^verbatim>\<open>from\<close> and a custom producer.\<close>

datatype 'u task =
    TaskOf val "'u sink"
  | TaskFrom nat "val list" "'u sink"
  | TaskBatch "signal list" "'u sink"

datatype host_call = ClearInterval nat | RemoveEventListener nat string nat | Teardown nat

record 'u state =
  user :: 'u
  fresh :: nat
  fresh_buffer :: nat
  flags :: "nat \<Rightarrow> bool"
  counters :: "nat \<Rightarrow> int"
  subvars :: "nat \<Rightarrow> sub option"
  subarrays :: "nat \<Rightarrow> sub list"
  buffers :: "nat \<Rightarrow> val list"
  timeouts :: "'u task list"
  intervals :: "(nat \<times> 'u sink) list"
  listeners :: "(nat \<times> string \<times> nat \<times> 'u sink) list"
  host :: "host_call list"
  thrown :: "fault option"

definition init :: "'u \<Rightarrow> 'u state" where
  "init u = \<lparr>user = u, fresh = 0, fresh_buffer = 0, flags = (\<lambda>_. False), counters = (\<lambda>_. 0),
            subvars = (\<lambda>_. None), subarrays = (\<lambda>_. []), buffers = (\<lambda>_. []),
            timeouts = [], intervals = [], listeners = [], host = [], thrown = None\<rparr>"

subsection \<open>Disposal\<close>

text \<open>
  \<^verbatim>\<open>subscription.dispose()\<close>. No case consults a flag of the Subscription itself: the
  guards are those the creation functions wrote into their own dispose functions. The
  array of a \<open>SubAll\<close> is read from the state when dispose runs; the first argument
  bounds how many arrays deep the walk goes (an array holds subscriptions of activations
  younger than its own, so \<open>fresh\<close> bounds the depth).
\<close>

fun dispose_upto :: "nat \<Rightarrow> sub \<Rightarrow> 'u state \<Rightarrow> 'u state" where
  "dispose_upto d (SubFlag a) st =
     (if \<not> flags st a then st\<lparr>flags := (flags st)(a := True)\<rparr> else st)"
| "dispose_upto d (SubInterval a) st =
     (if \<not> flags st a
      then st\<lparr>intervals := filter (\<lambda>(h, k). h \<noteq> a) (intervals st),
              host := host st @ [ClearInterval a],
              flags := (flags st)(a := True)\<rparr>
      else st)"
| "dispose_upto d (SubEvent a el name) st =
     (if \<not> flags st a
      then st\<lparr>listeners := filter (\<lambda>(e, n, h, k). \<not> (e = el \<and> n = name \<and> h = a)) (listeners st),
              host := host st @ [RemoveEventListener el name a],
              flags := (flags st)(a := True)\<rparr>
      else st)"
| "dispose_upto d (SubUp s) st = dispose_upto d s st"
| "dispose_upto 0 (SubAll a) st = st"
| "dispose_upto (Suc d) (SubAll a) st = fold (dispose_upto d) (subarrays st a) st"
| "dispose_upto d (SubCustom tag) st = st\<lparr>host := host st @ [Teardown tag]\<rparr>"

definition dispose :: "sub \<Rightarrow> 'u state \<Rightarrow> 'u state" where
  "dispose s st = dispose_upto (fresh st) s st"

text \<open>\<^verbatim>\<open>subscriptions.push(...)\<close>; the push does not happen when its argument threw.\<close>

definition push_subscription :: "nat \<Rightarrow> sub \<Rightarrow> 'u state \<Rightarrow> 'u state" where
  "push_subscription a s st =
     (if thrown st = None then st\<lparr>subarrays := (subarrays st)(a := subarrays st a @ [s])\<rparr> else st)"

text \<open>
  The two statements of the value handler of \<^verbatim>\<open>take\<close> that touch its own variables:
  \<^verbatim>\<open>subscription.dispose()\<close>, which faults while \<^verbatim>\<open>subscription\<close> is not initialised, and
  \<^verbatim>\<open>i++\<close>.
\<close>

definition take_release :: "nat \<Rightarrow> 'u state \<Rightarrow> 'u state" where
  "take_release a st =
     (if thrown st = None
      then (case subvars st a of
              None \<Rightarrow> st\<lparr>thrown := Some UninitialisedSubscription\<rparr>
            | Some s \<Rightarrow> dispose s st)
      else st)"

definition take_count :: "nat \<Rightarrow> 'u state \<Rightarrow> 'u state" where
  "take_count a st =
     (if thrown st = None then st\<lparr>counters := (counters st)(a := counters st a + 1)\<rparr> else st)"

subsection \<open>Subscribing and delivering\<close>

text \<open>
  \<open>subscribe src k st\<close> runs the subscribe function of \<open>src\<close> with observer \<open>k\<close>;
  \<open>deliver sig k st\<close> calls the method of \<open>k\<close> that \<open>sig\<close> names. A pending fault
  (\<open>thrown\<close>) is an exception on its way up the stack: every statement that would have
  run after the throw is skipped.
\<close>

text \<open>
  Without the congruence rule of \<open>let\<close> the induction rule below quantifies over the
  variables a \<open>let\<close> binds, instead of carrying their defining equations.
\<close>

declare let_cong [fundef_cong del]

function subscribe :: "obs \<Rightarrow> 'u sink \<Rightarrow> 'u state \<Rightarrow> sub \<times> 'u state"
  and subscribe_each :: "obs list \<Rightarrow> nat \<Rightarrow> 'u sink \<Rightarrow> 'u state \<Rightarrow> 'u state"
  and deliver :: "signal \<Rightarrow> 'u sink \<Rightarrow> 'u state \<Rightarrow> 'u state"
  and deliver_all :: "signal list \<Rightarrow> 'u sink \<Rightarrow> 'u state \<Rightarrow> 'u state"
where
  "subscribe Empty k st =
     (let a = fresh st;
          st1 = st\<lparr>fresh := a + 1, flags := (flags st)(a := False)\<rparr>
      in (SubFlag a, deliver Complete k st1))"
| "subscribe (Of v) k st =
     (let a = fresh st
      in (SubFlag a, st\<lparr>fresh := a + 1, flags := (flags st)(a := False),
                          timeouts := timeouts st @ [TaskOf v k]\<rparr>))"
| "subscribe (From vs) k st =
     (let a = fresh st
      in (SubFlag a, st\<lparr>fresh := a + 1, flags := (flags st)(a := False),
                          timeouts := timeouts st @ [TaskFrom a vs k]\<rparr>))"
| "subscribe (Interval p) k st =
     (let a = fresh st
      in (SubInterval a, st\<lparr>fresh := a + 1, flags := (flags st)(a := False),
                              counters := (counters st)(a := 0),
                              intervals := intervals st @ [(a, k)]\<rparr>))"
| "subscribe (FromEvent el name) k st =
     (let a = fresh st
      in (SubEvent a el name, st\<lparr>fresh := a + 1, flags := (flags st)(a := False),
                              listeners := listeners st @ [(el, name, a, k)]\<rparr>))"
| "subscribe (Merge os) k st =
     (let a = fresh st;
          st1 = st\<lparr>fresh := a + 1, counters := (counters st)(a := 0),
                    subarrays := (subarrays st)(a := [])\<rparr>
      in (SubAll a, subscribe_each os a k st1))"
| "subscribe (Take src n) k st =
     (let a = fresh st;
          st1 = st\<lparr>fresh := a + 1, counters := (counters st)(a := 0),
                    subvars := (subvars st)(a := None)\<rparr>;
          (s, st2) = subscribe src (TakeSink a n k) st1
      in (SubUp s,
          if thrown st2 = None then st2\<lparr>subvars := (subvars st2)(a := Some s)\<rparr> else st2))"
| "subscribe (Map src f) k st =
     (let (s, st1) = subscribe src (MapSink f k) st in (SubUp s, st1))"
| "subscribe (MergeMap src f) k st =
     (let a = fresh st;
          st1 = st\<lparr>fresh := a + 1, counters := (counters st)(a := 0),
                    subarrays := (subarrays st)(a := [])\<rparr>;
          (s, st2) = subscribe src (MergeMapOuter a f k) st1
      in (SubAll a, push_subscription a s st2))"
| "subscribe (Join src) k st =
     (let a = fresh_buffer st;
          st1 = st\<lparr>fresh_buffer := a + 1, buffers := (buffers st)(a := [])\<rparr>;
          (s, st2) = subscribe src (JoinSink a k) st1
      in (SubUp s, st2))"
| "subscribe (Custom tag sync batches) k st =
     (let st1 = deliver_all sync k st
      in (SubCustom tag,
          if thrown st1 = None
          then st1\<lparr>timeouts := timeouts st1 @ map (\<lambda>b. TaskBatch b k) batches\<rparr>
          else st1))"
| "subscribe_each [] a k st = st"
| "subscribe_each (src # os) a k st =
     (if thrown st = None
      then (let (s, st1) = subscribe src (MergeSink a k) st
            in subscribe_each os a k (push_subscription a s st1))
      else st)"
| "deliver sig (Subscriber ob) st =
     (if thrown st = None
      then (case sig of
              Next v \<Rightarrow> st\<lparr>user := observer_next ob v (user st)\<rparr>
            | Error m \<Rightarrow> st\<lparr>user := observer_error ob m (user st)\<rparr>
            | Complete \<Rightarrow> st\<lparr>user := observer_complete ob (user st)\<rparr>)
      else st)"
| "deliver sig (TakeSink a n k) st =
     (if thrown st = None
      then (case sig of
              Next v \<Rightarrow>
                (let st1 = (if counters st a < n - 1 then deliver (Next v) k st else st)
                 in take_count a
                      (if thrown st1 = None \<and> counters st1 a = n - 1
                       then take_release a (deliver Complete k (deliver (Next v) k st1))
                       else st1))
            | Error m \<Rightarrow> deliver (Error m) k st
            | Complete \<Rightarrow> deliver Complete k st)
      else st)"
| "deliver sig (MapSink f k) st =
     (if thrown st = None
      then (case sig of
              Next v \<Rightarrow> deliver (Next (f v)) k st
            | Error m \<Rightarrow> deliver (Error m) k st
            | Complete \<Rightarrow> deliver Complete k st)
      else st)"
| "deliver sig (JoinSink a k) st =
     (if thrown st = None
      then (case sig of
              Next v \<Rightarrow> st\<lparr>buffers := (buffers st)(a := buffers st a @ [v])\<rparr>
            | Error m \<Rightarrow> deliver (Error m) k st
            | Complete \<Rightarrow> deliver Complete k (deliver (Next (Arr (buffers st a))) k st))
      else st)"
| "deliver sig (MergeMapOuter a f k) st =
     (if thrown st = None
      then (case sig of
              Next v \<Rightarrow>
                (let (s, st1) = subscribe (f v) (MergeMapInner a k) st
                 in push_subscription a s st1)
            | Error m \<Rightarrow> deliver (Error m) k st
            | Complete \<Rightarrow>
                (let st1 = st\<lparr>counters := (counters st)(a := counters st a + 1)\<rparr>
                 in if counters st1 a = int (length (subarrays st1 a))
                    then deliver Complete k st1 else st1))
      else st)"
| "deliver sig (MergeMapInner a k) st =
     (if thrown st = None
      then (case sig of
              Next v \<Rightarrow> deliver (Next v) k st
            | Error m \<Rightarrow> deliver (Error m) k st
            | Complete \<Rightarrow>
                (let st1 = st\<lparr>counters := (counters st)(a := counters st a + 1)\<rparr>
                 in if counters st1 a = int (length (subarrays st1 a))
                    then deliver Complete k st1 else st1))
      else st)"
| "deliver sig (MergeSink a k) st =
     (if thrown st = None
      then (case sig of
              Next v \<Rightarrow> deliver (Next v) k st
            | Error m \<Rightarrow> deliver (Error m) k st
            | Complete \<Rightarrow>
                (let st1 = st\<lparr>counters := (counters st)(a := counters st a + 1)\<rparr>
                 in if counters st1 a = int (length (subarrays st1 a))
                    then deliver Complete k st1 else st1))
      else st)"
| "deliver_all [] k st = st"
| "deliver_all (sig # sigs) k st =
     (if thrown st = None then deliver_all sigs k (deliver sig k st) else st)"
  by pat_completeness auto

text \<open>
  Termination. A \<^verbatim>\<open>mergeMap\<close> observer subscribes to \<open>f v\<close> when a value arrives, so
  delivering can subscribe and subscribing can deliver. What decreases is the multiset of
  Observables and \<^verbatim>\<open>mergeMap\<close> functions still to be entered, ordered by the
  multiset extension of "is a part of"; then the number of frames of the observer.
\<close>

type_synonym node = "obs + (val \<Rightarrow> obs)"

inductive_set child :: "(node \<times> node) set" where
  child_Take: "(Inl src, Inl (Take src n)) \<in> child"
| child_Map: "(Inl src, Inl (Map src f)) \<in> child"
| child_Join: "(Inl src, Inl (Join src)) \<in> child"
| child_MergeMap: "(Inl src, Inl (MergeMap src g)) \<in> child"
| child_fn: "(Inr g, Inl (MergeMap src g)) \<in> child"
| child_app: "(Inl (g v), Inr g) \<in> child"
| child_Merge: "src \<in> set os \<Longrightarrow> (Inl src, Inl (Merge os)) \<in> child"

lemma wf_child: "wf child"
proof (rule wfUNIVI)
  fix P :: "node \<Rightarrow> bool" and x
  assume step: "\<forall>x. (\<forall>y. (y, x) \<in> child \<longrightarrow> P y) \<longrightarrow> P x"
  have st: "P z" if "\<And>y. (y, z) \<in> child \<Longrightarrow> P y" for z
    using step that by blast
  have fn: "P (Inr g)" if "\<And>v. P (Inl (g v))" for g
    by (rule st) (auto elim: child.cases intro: that)
  have "P (Inl src)" for src
  proof (induction src)
    case (MergeMap src g)
    have "P (Inr g)" by (rule fn) (simp add: MergeMap.IH(2) rangeI)
    with MergeMap.IH(1) show ?case
      by - (rule st, auto elim: child.cases)
  qed (rule st, auto elim: child.cases)+
  with fn show "P x" by (cases x) auto
qed

fun spawns :: "'u sink \<Rightarrow> node multiset" where
  "spawns (Subscriber ob) = {#}"
| "spawns (TakeSink a n k) = spawns k"
| "spawns (MapSink f k) = spawns k"
| "spawns (JoinSink a k) = spawns k"
| "spawns (MergeMapOuter a g k) = add_mset (Inr g) (spawns k)"
| "spawns (MergeMapInner a k) = spawns k"
| "spawns (MergeSink a k) = spawns k"

fun frames :: "'u sink \<Rightarrow> nat" where
  "frames (Subscriber ob) = 0"
| "frames (TakeSink a n k) = Suc (frames k)"
| "frames (MapSink f k) = Suc (frames k)"
| "frames (JoinSink a k) = Suc (frames k)"
| "frames (MergeMapOuter a g k) = Suc (frames k)"
| "frames (MergeMapInner a k) = Suc (frames k)"
| "frames (MergeSink a k) = Suc (frames k)"

lemma mult_drop: "(M, add_mset x M) \<in> mult r"
  using one_step_implies_mult [of "{#x#}" "{#}" r M] by simp

lemma mult_replace: "(y, x) \<in> r \<Longrightarrow> (add_mset y M, add_mset x M) \<in> mult r"
  using one_step_implies_mult [of "{#x#}" "{#y#}" r M] by simp

lemma mult_replace2:
  "(y, x) \<in> r \<Longrightarrow> (z, x) \<in> r \<Longrightarrow> (add_mset y (add_mset z M), add_mset x M) \<in> mult r"
  using one_step_implies_mult [of "{#x#}" "{#y, z#}" r M] by simp

lemma mult_replace_list:
  "\<forall>y \<in> set ys. (f y, x) \<in> r \<Longrightarrow> (image_mset f (mset ys) + M, add_mset x M) \<in> mult r"
  using one_step_implies_mult [of "{#x#}" "image_mset f (mset ys)" r M] by (simp add: add.commute)

lemma mult_shrink: "N \<noteq> {#} \<Longrightarrow> (add_mset a M, add_mset a (N + M)) \<in> mult r"
  using one_step_implies_mult [of N "{#}" r "add_mset a M"] by (simp add: add.commute)

termination subscribe
  apply (relation "inv_image (mult child <*lex*> less_than <*lex*> less_than)
     (\<lambda>x. case x of
        Inl (Inl (src, k, st)) \<Rightarrow> (add_mset (Inl src) (spawns k), 0, 0)
      | Inl (Inr (os, a, k, st)) \<Rightarrow> (mset (map Inl os) + spawns k, 1, 0)
      | Inr (Inl (sig, k, st)) \<Rightarrow> (spawns k, 2 * frames k, 0)
      | Inr (Inr (sigs, k, st)) \<Rightarrow> (spawns k, 2 * frames k + 1, length sigs))")
  apply (auto simp: wf_mult wf_child mult_drop mult_replace mult_replace2 mult_replace_list
      mult_shrink child.intros)
  done

declare let_cong [fundef_cong]

text \<open>\<^verbatim>\<open>Observable.subscribe(next, error, complete)\<close>.\<close>

definition observable_subscribe :: "obs \<Rightarrow> 'u observer \<Rightarrow> 'u state \<Rightarrow> sub \<times> 'u state" where
  "observable_subscribe src ob st = subscribe src (Subscriber ob) st"

subsection \<open>The host: timers and events\<close>

text \<open>The body of the timer callback of \<^verbatim>\<open>from\<close>: \<^verbatim>\<open>values.forEach(...)\<close>.\<close>

fun emit_values :: "nat \<Rightarrow> val list \<Rightarrow> 'u sink \<Rightarrow> 'u state \<Rightarrow> 'u state" where
  "emit_values a [] k st = st"
| "emit_values a (v # vs) k st =
     (if thrown st = None
      then emit_values a vs k (if \<not> flags st a then deliver (Next v) k st else st)
      else st)"

fun run_task :: "'u task \<Rightarrow> 'u state \<Rightarrow> 'u state" where
  "run_task (TaskOf v k) st = deliver Complete k (deliver (Next v) k st)"
| "run_task (TaskFrom a vs k) st =
     (let st1 = emit_values a vs k st
      in if thrown st1 = None \<and> \<not> flags st1 a then deliver Complete k st1 else st1)"
| "run_task (TaskBatch sigs k) st = deliver_all sigs k st"

text \<open>
  What the host can do next: run the oldest pending zero-delay timer, fire the interval
  timer with a given handle, or dispatch an event on an element. Each is a fresh call
  stack, so a fault of the previous one is no longer pending.
\<close>

datatype event = Timeout | Tick nat | Dispatch nat string val

fun dispatch_to :: "(nat \<times> string \<times> nat \<times> 'u sink) list \<Rightarrow> val \<Rightarrow> 'u state \<Rightarrow> 'u state" where
  "dispatch_to [] ev st = st"
| "dispatch_to ((el, name, h, k) # ls) ev st =
     dispatch_to ls ev
       (if h \<in> set (map (\<lambda>(e, n, h', k'). h') (listeners st))
        then deliver (Next ev) k (st\<lparr>thrown := None\<rparr>) else st)"

fun step :: "event \<Rightarrow> 'u state \<Rightarrow> 'u state" where
  "step Timeout st =
     (case timeouts st of
        [] \<Rightarrow> st
      | t # ts \<Rightarrow> run_task t (st\<lparr>timeouts := ts, thrown := None\<rparr>))"
| "step (Tick h) st =
     (case map_of (intervals st) h of
        None \<Rightarrow> st
      | Some k \<Rightarrow>
          (let st1 = deliver (Next (Num (counters st h))) k (st\<lparr>thrown := None\<rparr>)
           in if thrown st1 = None
              then st1\<lparr>counters := (counters st1)(h := counters st1 h + 1)\<rparr>
              else st1))"
| "step (Dispatch el name ev) st =
     dispatch_to (filter (\<lambda>(e, n, h, k). e = el \<and> n = name) (listeners st)) ev st"

definition run :: "event list \<Rightarrow> 'u state \<Rightarrow> 'u state" where
  "run evs st = fold step evs st"

text \<open>
  What a recording subscriber has seen after subscribing to \<open>src\<close> in a fresh state and
  letting the host perform \<open>evs\<close>.
\<close>

definition trace :: "obs \<Rightarrow> event list \<Rightarrow> signal list" where
  "trace src evs = user (run evs (snd (observable_subscribe src recorder (init []))))"

subsection \<open>\<^verbatim>\<open>range\<close>\<close>

text \<open>
  A number of the language is an IEEE double. An argument of \<^verbatim>\<open>range\<close> that is an integer is
  modelled by the \<open>int\<close> it denotes, so the \<open>int\<close>s that occur are those a double holds:
  every integer from \<open>- 2 ^ 53\<close> to \<open>2 ^ 53\<close>, beyond that only the multiples of 2 up to
  magnitude \<open>2 ^ 54\<close>, then the multiples of 4, and so on. \<open>js_incr i\<close> is \<^verbatim>\<open>i++\<close> on such a
  number: \<open>i + 1\<close> rounded to the nearest double, a tie going to the double with the even
  significand. For \<open>- 2 ^ 53 \<le> i < 2 ^ 53\<close> the sum is a double itself. Where doubles are 2
  apart, \<open>i + 1\<close> lies halfway between \<open>i\<close> and \<open>i + 2\<close> and the multiple of 4 among the two
  is taken. Further out \<open>i + 1\<close> rounds back to \<open>i\<close>, and \<^verbatim>\<open>i++\<close> leaves \<open>i\<close> as it is.
\<close>

definition js_incr :: "int \<Rightarrow> int" where
  "js_incr i =
     (if - (2 ^ 53) \<le> i \<and> i < 2 ^ 53 then i + 1
      else if \<bar>i\<bar> < 2 ^ 54 then (if 4 dvd i then i else i + 2)
      else i)"

text \<open>
  The loop \<^verbatim>\<open>for (let i = min; i <= max; i++) values.push(i)\<close>. An array of the language
  holds at most \<open>2 ^ 32 - 1 = 4294967295\<close> elements: \<^verbatim>\<open>push\<close> on an array of that length throws
  a \<^verbatim>\<open>RangeError\<close> (invalid array length), which nothing in \<^verbatim>\<open>range\<close> catches. By itself the
  loop never ends on a counter that \<^verbatim>\<open>i++\<close> leaves unchanged; what ends it is that exception,
  and \<^verbatim>\<open>range\<close> then returns no Observable.
\<close>

datatype array_fault = InvalidArrayLength

function range_loop :: "int \<Rightarrow> int \<Rightarrow> val list \<Rightarrow> array_fault + val list" where
  "range_loop i mx values =
     (if i \<le> mx
      then (if length values < 4294967295
            then range_loop (js_incr i) mx (values @ [Num i])
            else Inl InvalidArrayLength)
      else Inr values)"
  by pat_completeness auto
termination
  by (relation "measure (\<lambda>(i, mx, values). 4294967295 - length values)") auto

text \<open>\<^verbatim>\<open>range(min, max)\<close>: the loop from an empty array, then \<^verbatim>\<open>from(values)\<close>.\<close>

definition range_obs :: "int \<Rightarrow> int \<Rightarrow> array_fault + obs" where
  "range_obs mn mx = (case range_loop mn mx [] of Inl e \<Rightarrow> Inl e | Inr values \<Rightarrow> Inr (From values))"

text \<open>
  \<^verbatim>\<open>range(min, max).subscribe(...)\<close> with a recording subscriber, followed by the host's
  events \<open>evs\<close>: the exception of \<^verbatim>\<open>range\<close>, or what the subscriber has seen.
\<close>

definition trace_range :: "int \<Rightarrow> int \<Rightarrow> event list \<Rightarrow> array_fault + signal list" where
  "trace_range mn mx evs = (case range_obs mn mx of Inl e \<Rightarrow> Inl e | Inr src \<Rightarrow> Inr (trace src evs))"

subsection \<open>Reading a trace\<close>

text \<open>The values of the \<^verbatim>\<open>next\<close> calls of a trace, in order.\<close>

fun nexts :: "signal list \<Rightarrow> val list" where
  "nexts [] = []"
| "nexts (Next v # sigs) = v # nexts sigs"
| "nexts (Error m # sigs) = nexts sigs"
| "nexts (Complete # sigs) = nexts sigs"

text \<open>No interval timer is running and no event listener is attached.\<close>

definition quiet :: "'u state \<Rightarrow> bool" where
  "quiet st \<longleftrightarrow> intervals st = [] \<and> listeners st = []"

text \<open>
  \<open>keeps st st'\<close>: \<open>st'\<close> is a later state than \<open>st\<close> in which every \<^verbatim>\<open>isdisposed\<close> flag
  that was set in \<open>st\<close> is still set.
\<close>

definition keeps :: "'u state \<Rightarrow> 'u state \<Rightarrow> bool" where
  "keeps st st' \<longleftrightarrow> fresh st \<le> fresh st' \<and> (\<forall>a < fresh st. flags st a \<longrightarrow> flags st' a)"

text \<open>The creation functions whose Subscription carries the local \<^verbatim>\<open>isdisposed\<close> guard.\<close>

fun guarded :: "obs \<Rightarrow> bool" where
  "guarded Empty = True"
| "guarded (Of v) = True"
| "guarded (From vs) = True"
| "guarded (Interval p) = True"
| "guarded (FromEvent el name) = True"
| "guarded src = False"

text \<open>The address of the flag a guarded dispose function consults.\<close>

fun guard_of :: "sub \<Rightarrow> nat option" where
  "guard_of (SubFlag a) = Some a"
| "guard_of (SubInterval a) = Some a"
| "guard_of (SubEvent a el name) = Some a"
| "guard_of s = None"

subsection \<open>Replacing the subscriber\<close>

text \<open>
  \<open>observe src ob u evs\<close>: the world of a subscriber with callbacks \<open>ob\<close> and initial
  world \<open>u\<close>, after subscribing to \<open>src\<close> in a fresh state and letting the host perform
  \<open>evs\<close>.
\<close>

definition observe :: "obs \<Rightarrow> 'u observer \<Rightarrow> 'u \<Rightarrow> event list \<Rightarrow> 'u" where
  "observe src ob u evs = user (run evs (snd (observable_subscribe src ob (init u))))"

text \<open>The callbacks \<open>ob\<close> with \<open>h\<close> applied to every value first.\<close>

definition map_observer :: "(val \<Rightarrow> val) \<Rightarrow> 'u observer \<Rightarrow> 'u observer" where
  "map_observer h ob = ob\<lparr>cb_next := map_option (\<lambda>c v. c (h v)) (cb_next ob)\<rparr>"

text \<open>
  \<open>plug ob b k\<close> puts the observer \<open>b\<close> in the place of the subscriber \<open>ob\<close> at the end
  of \<open>k\<close>; \<open>plug_state\<close> does so in every observer the host holds.
\<close>

fun plug :: "'u observer \<Rightarrow> 'u sink \<Rightarrow> 'u sink \<Rightarrow> 'u sink" where
  "plug ob b (Subscriber ob') = (if ob' = ob then b else Subscriber ob')"
| "plug ob b (TakeSink a n k) = TakeSink a n (plug ob b k)"
| "plug ob b (MapSink f k) = MapSink f (plug ob b k)"
| "plug ob b (JoinSink a k) = JoinSink a (plug ob b k)"
| "plug ob b (MergeMapOuter a f k) = MergeMapOuter a f (plug ob b k)"
| "plug ob b (MergeMapInner a k) = MergeMapInner a (plug ob b k)"
| "plug ob b (MergeSink a k) = MergeSink a (plug ob b k)"

fun plug_task :: "'u observer \<Rightarrow> 'u sink \<Rightarrow> 'u task \<Rightarrow> 'u task" where
  "plug_task ob b (TaskOf v k) = TaskOf v (plug ob b k)"
| "plug_task ob b (TaskFrom a vs k) = TaskFrom a vs (plug ob b k)"
| "plug_task ob b (TaskBatch sigs k) = TaskBatch sigs (plug ob b k)"

definition plug_state :: "'u observer \<Rightarrow> 'u sink \<Rightarrow> 'u state \<Rightarrow> 'u state" where
  "plug_state ob b st =
     st\<lparr>timeouts := map (plug_task ob b) (timeouts st),
        intervals := map (\<lambda>(h, k). (h, plug ob b k)) (intervals st),
        listeners := map (\<lambda>(e, n, h, k). (e, n, h, plug ob b k)) (listeners st)\<rparr>"

definition acts_like :: "'u sink \<Rightarrow> 'u observer \<Rightarrow> bool" where
  "acts_like b ob \<longleftrightarrow> (\<forall>sig st. deliver sig b st = deliver sig (Subscriber ob) st)"

text \<open>The specification of \<^verbatim>\<open>join\<close> on a trace, in the words of the description: every value
  is buffered; an error passes through; a completion emits the buffer as one value and
  then completes. \<open>buf\<close> is the buffer so far.\<close>

fun join_log :: "val list \<Rightarrow> signal list \<Rightarrow> signal list" where
  "join_log buf [] = []"
| "join_log buf (Next v # sigs) = join_log (buf @ [v]) sigs"
| "join_log buf (Error m # sigs) = Error m # join_log buf sigs"
| "join_log buf (Complete # sigs) = Next (Arr buf) # Complete # join_log buf sigs"


subsection \<open>A subscription seen through \<^verbatim>\<open>join\<close>\<close>

text \<open>
  Subscribing the recorder to \<^verbatim>\<open>source.join()\<close> subscribes the observer of \<^verbatim>\<open>join\<close> to
  \<^verbatim>\<open>source\<close>. \<open>lift k\<close> is the observer \<open>k\<close> with the observer of that outermost \<^verbatim>\<open>join\<close>
  in the place of the recorder; the outermost \<^verbatim>\<open>join\<close> owns the first array, so the array
  of every \<^verbatim>\<open>join\<close> inside \<open>k\<close> is the next one.
\<close>

fun lift :: "signal list sink \<Rightarrow> signal list sink" where
  "lift (Subscriber ob) = JoinSink 0 (Subscriber recorder)"
| "lift (TakeSink a n k) = TakeSink a n (lift k)"
| "lift (MapSink f k) = MapSink f (lift k)"
| "lift (JoinSink a k) = JoinSink (Suc a) (lift k)"
| "lift (MergeMapOuter a f k) = MergeMapOuter a f (lift k)"
| "lift (MergeMapInner a k) = MergeMapInner a (lift k)"
| "lift (MergeSink a k) = MergeSink a (lift k)"

fun lift_task :: "signal list task \<Rightarrow> signal list task" where
  "lift_task (TaskOf v k) = TaskOf v (lift k)"
| "lift_task (TaskFrom a vs k) = TaskFrom a vs (lift k)"
| "lift_task (TaskBatch sigs k) = TaskBatch sigs (lift k)"

text \<open>
  \<open>joined st\<close>: the state of the run under \<^verbatim>\<open>join\<close> that corresponds to the state \<open>st\<close>
  of the run without it. The recorder has received what \<open>join_log\<close> makes of the calls
  recorded in \<open>st\<close>, the array of the outermost \<^verbatim>\<open>join\<close> holds the values recorded in
  \<open>st\<close>, and every observer the host holds is lifted.
\<close>

definition shift_buffers :: "val list \<Rightarrow> (nat \<Rightarrow> val list) \<Rightarrow> nat \<Rightarrow> val list" where
  "shift_buffers d f = (\<lambda>x. case x of 0 \<Rightarrow> d | Suc y \<Rightarrow> f y)"

definition joined :: "signal list state \<Rightarrow> signal list state" where
  "joined st =
     st\<lparr>user := join_log [] (user st),
        fresh_buffer := Suc (fresh_buffer st),
        buffers := shift_buffers (nexts (user st)) (buffers st),
        timeouts := map lift_task (timeouts st),
        intervals := map (\<lambda>(h, k). (h, lift k)) (intervals st),
        listeners := map (\<lambda>(e, n, h, k). (e, n, h, lift k)) (listeners st)\<rparr>"

text \<open>An observer whose calls all end in the recorder, and a state whose host holds only such.\<close>

fun pure :: "signal list sink \<Rightarrow> bool" where
  "pure (Subscriber ob) = (ob = recorder)"
| "pure (TakeSink a n k) = pure k"
| "pure (MapSink f k) = pure k"
| "pure (JoinSink a k) = pure k"
| "pure (MergeMapOuter a f k) = pure k"
| "pure (MergeMapInner a k) = pure k"
| "pure (MergeSink a k) = pure k"

fun pure_task :: "signal list task \<Rightarrow> bool" where
  "pure_task (TaskOf v k) = pure k"
| "pure_task (TaskFrom a vs k) = pure k"
| "pure_task (TaskBatch sigs k) = pure k"

definition pure_state :: "signal list state \<Rightarrow> bool" where
  "pure_state st \<longleftrightarrow>
     list_all pure_task (timeouts st) \<and> list_all (\<lambda>(h, k). pure k) (intervals st)
     \<and> list_all (\<lambda>(e, n, h, k). pure k) (listeners st)"

section \<open>Basic facts\<close>

declare fun_upd_apply [simp del]
declare fun_upd_same [simp] fun_upd_other [simp]
declare range_loop.simps [simp del]
declare take_release_def [simp] take_count_def [simp]

lemma dispose_SubFlag [simp]:
  "dispose (SubFlag a) st = (if \<not> flags st a then st\<lparr>flags := (flags st)(a := True)\<rparr> else st)"
  by (simp add: dispose_def)

lemma recorder_next [simp]: "observer_next recorder v l = l @ [Next v]"
  by (simp add: recorder_def observer_next_def)

lemma recorder_error [simp]: "observer_error recorder m l = l @ [Error m]"
  by (simp add: recorder_def observer_error_def)

lemma recorder_complete [simp]: "observer_complete recorder l = l @ [Complete]"
  by (simp add: recorder_def observer_complete_def)

lemma fold_recorder_next [simp]: "fold (observer_next recorder) vs l = l @ map Next vs"
  by (induction vs arbitrary: l) simp_all

lemma emit_values_disposed: "flags st a \<Longrightarrow> emit_values a vs k st = st"
  by (induction vs) auto

lemma emit_values_subscriber:
  "thrown st = None \<Longrightarrow> \<not> flags st b \<Longrightarrow>
   emit_values b vs (Subscriber ob) st = st\<lparr>user := fold (observer_next ob) vs (user st)\<rparr>"
proof (induction vs arbitrary: st)
  case Nil
  then show ?case by simp
next
  case (Cons v vs)
  show ?case using Cons.prems by (simp add: Cons.IH)
qed

lemma emit_values_take_past:
  "thrown st = None \<Longrightarrow> \<not> flags st b \<Longrightarrow> n \<le> counters st a \<Longrightarrow>
   emit_values b vs (TakeSink a n k) st =
     st\<lparr>counters := (counters st)(a := counters st a + int (length vs))\<rparr>"
proof (induction vs arbitrary: st)
  case Nil
  then show ?case by simp
next
  case (Cons v vs)
  show ?case using Cons.prems by (simp add: Let_def add.assoc Cons.IH)
qed

lemma emit_values_take_below:
  "thrown st = None \<Longrightarrow> \<not> flags st b \<Longrightarrow> counters st a + int (length vs) < n \<Longrightarrow>
   emit_values b vs (TakeSink a n (Subscriber ob)) st =
     st\<lparr>user := fold (observer_next ob) vs (user st),
        counters := (counters st)(a := counters st a + int (length vs))\<rparr>"
proof (induction vs arbitrary: st)
  case Nil
  then show ?case by simp
next
  case (Cons v vs)
  show ?case using Cons.prems by (simp add: Let_def add.assoc Cons.IH)
qed

lemma emit_values_take_reach:
  "thrown st = None \<Longrightarrow> \<not> flags st b \<Longrightarrow> subvars st a = Some (SubFlag b) \<Longrightarrow>
   counters st a < n \<Longrightarrow> n \<le> counters st a + int (length vs) \<Longrightarrow>
   emit_values b vs (TakeSink a n (Subscriber ob)) st =
     st\<lparr>user := observer_complete ob
               (fold (observer_next ob) (take (nat (n - counters st a)) vs) (user st)),
        counters := (counters st)(a := n),
        flags := (flags st)(b := True)\<rparr>"
proof (induction vs arbitrary: st)
  case Nil
  then show ?case by simp
next
  case (Cons v vs)
  let ?i = "counters st a"
  have nat_Suc: "nat (n - ?i) = Suc (nat (n - (?i + 1)))"
    using Cons.prems by linarith
  show ?case
  proof (cases "?i = n - 1")
    case True
    then show ?thesis using Cons.prems
      by (simp add: Let_def emit_values_disposed)
  next
    case False
    then show ?thesis using Cons.prems
      by (simp add: Let_def add.assoc nat_Suc Cons.IH)
  qed
qed

lemma step_quiet: "quiet st \<Longrightarrow> ev \<noteq> Timeout \<Longrightarrow> step ev st = st"
  by (cases ev) (simp_all add: quiet_def)

lemma run_quiet: "quiet st \<Longrightarrow> Timeout \<notin> set evs \<Longrightarrow> run evs st = st"
  by (induction evs) (auto simp: run_def step_quiet)

lemma step_idle: "quiet st \<Longrightarrow> timeouts st = [] \<Longrightarrow> step ev st = st"
  by (cases ev) (simp_all add: quiet_def)

lemma run_idle: "quiet st \<Longrightarrow> timeouts st = [] \<Longrightarrow> run evs st = st"
  by (induction evs) (auto simp: run_def step_idle)

lemma run_first_timeout:
  assumes "quiet st" "Timeout \<in> set evs" "quiet (step Timeout st)" "timeouts (step Timeout st) = []"
  shows "run evs st = step Timeout st"
proof -
  obtain pre post where evs: "evs = pre @ Timeout # post" and pre: "Timeout \<notin> set pre"
    using assms(2) by (auto dest: split_list_first)
  have "run evs st = run post (step Timeout (run pre st))"
    by (simp add: evs run_def)
  also have "\<dots> = run post (step Timeout st)"
    using assms(1) pre by (simp add: run_quiet)
  also have "\<dots> = step Timeout st"
    using assms(3,4) by (rule run_idle)
  finally show ?thesis .
qed

lemma take_from_task:
  assumes "thrown st = None" "\<not> flags st b" "subvars st a = Some (SubFlag b)" "counters st a = 0"
  shows "user (run_task (TaskFrom b vals (TakeSink a n (Subscriber recorder))) st) =
           user st @ map Next (take (nat n) vals) @ [Complete]"
    and "timeouts (run_task (TaskFrom b vals (TakeSink a n (Subscriber recorder))) st) = timeouts st"
    and "quiet (run_task (TaskFrom b vals (TakeSink a n (Subscriber recorder))) st) = quiet st"
proof -
  let ?k = "TakeSink a n (Subscriber recorder)"
  consider (past) "n \<le> 0" | (below) "int (length vals) < n" | (reach) "0 < n" "n \<le> int (length vals)"
    by linarith
  then have "user (run_task (TaskFrom b vals ?k) st) =
           user st @ map Next (take (nat n) vals) @ [Complete]
      \<and> timeouts (run_task (TaskFrom b vals ?k) st) = timeouts st
      \<and> quiet (run_task (TaskFrom b vals ?k) st) = quiet st"
  proof cases
    case past
    then show ?thesis using assms
      by (simp add: emit_values_take_past quiet_def)
  next
    case below
    then show ?thesis using assms
      by (simp add: emit_values_take_below quiet_def)
  next
    case reach
    then show ?thesis using assms
      by (simp add: emit_values_take_reach quiet_def)
  qed
  then show "user (run_task (TaskFrom b vals ?k) st) =
           user st @ map Next (take (nat n) vals) @ [Complete]"
    and "timeouts (run_task (TaskFrom b vals ?k) st) = timeouts st"
    and "quiet (run_task (TaskFrom b vals ?k) st) = quiet st"
    by simp_all
qed

lemma run_single_task:
  assumes q1: "quiet st1" and t1: "timeouts st1 = [t]"
    and r: "r = run_task t (st1\<lparr>timeouts := [], thrown := None\<rparr>)"
    and qr: "quiet r" and tr: "timeouts r = []"
  shows "run evs st1 = (if Timeout \<in> set evs then r else st1)"
proof (cases "Timeout \<in> set evs")
  case True
  have fired: "step Timeout st1 = r"
    by (simp add: t1 r)
  have "run evs st1 = step Timeout st1"
  proof (rule run_first_timeout)
    show "quiet st1" by (fact q1)
    show "Timeout \<in> set evs" by (fact True)
    show "quiet (step Timeout st1)" unfolding fired by (fact qr)
    show "timeouts (step Timeout st1) = []" unfolding fired by (fact tr)
  qed
  then show ?thesis
    using True by (simp only: fired if_True)
next
  case False
  then show ?thesis
    using q1 by (simp add: run_quiet)
qed

lemma trace_single_task:
  assumes st1: "st1 = snd (observable_subscribe src recorder (init []))"
    and q1: "quiet st1" and u1: "user st1 = []" and t1: "timeouts st1 = [t]"
    and r: "r = run_task t (st1\<lparr>timeouts := [], thrown := None\<rparr>)"
    and qr: "quiet r" and tr: "timeouts r = []"
  shows "trace src evs = (if Timeout \<in> set evs then user r else [])"
proof (cases "Timeout \<in> set evs")
  case True
  have fired: "step Timeout st1 = r"
    by (simp add: t1 r)
  have "run evs st1 = step Timeout st1"
  proof (rule run_first_timeout)
    show "quiet st1" by (fact q1)
    show "Timeout \<in> set evs" by (fact True)
    show "quiet (step Timeout st1)" unfolding fired by (fact qr)
    show "timeouts (step Timeout st1) = []" unfolding fired by (fact tr)
  qed
  then show ?thesis
    using True by (simp only: trace_def st1 [symmetric] fired if_True)
next
  case False
  then show ?thesis
    using q1 by (simp add: trace_def st1 [symmetric] run_quiet u1)
qed

lemma nexts_append [simp]: "nexts (xs @ ys) = nexts xs @ nexts ys"
  by (induction xs rule: nexts.induct) simp_all

lemma nexts_map_Next [simp]: "nexts (map Next vs) = vs"
  by (induction vs) simp_all

section \<open>\<^verbatim>\<open>from(values).take(n)\<close>\<close>

text \<open>
  Claim C1. For every list \<open>vs\<close> and every count \<open>n\<close>, a subscriber of
  \<^verbatim>\<open>from(vs).take(n)\<close> has received nothing before the timer of \<^verbatim>\<open>from\<close> runs, and from
  the moment it has run, whatever the host does afterwards, exactly the first
  \<open>min n (length vs)\<close> elements of \<open>vs\<close> in their order, each by one \<^verbatim>\<open>next\<close> call,
  followed by exactly one \<^verbatim>\<open>complete\<close> call and nothing after it. The count \<open>n\<close> is an
  integer; a negative \<open>n\<close> lets no value through, as \<open>n = 0\<close> does.
\<close>

theorem from_take_trace:
  "trace (Take (From vs) n) evs =
     (if Timeout \<in> set evs then map Next (take (nat n) vs) @ [Complete] else [])
   \<and> length (nexts (trace (Take (From vs) n) evs)) =
     (if Timeout \<in> set evs then min (nat n) (length vs) else 0)"
proof -
  define st1 where "st1 = snd (observable_subscribe (Take (From vs) n) recorder (init []))"
  define st2 where "st2 = st1\<lparr>timeouts := [], thrown := None\<rparr>"
  define t where "t = TaskFrom (Suc 0) vs (TakeSink 0 n (Subscriber recorder))"
  define r where "r = run_task t st2"
  have q1: "quiet st1" and u1: "user st1 = []" and t1: "timeouts st1 = [t]"
    by (simp_all add: st1_def observable_subscribe_def init_def quiet_def Let_def t_def)
  have st2: "thrown st2 = None" "\<not> flags st2 (Suc 0)" "subvars st2 0 = Some (SubFlag (Suc 0))"
    "counters st2 0 = 0" 
    by (simp_all add: st2_def st1_def observable_subscribe_def init_def quiet_def Let_def)
  have st2': "user st2 = []" "timeouts st2 = []" "quiet st2"
    by (simp_all add: st2_def st1_def observable_subscribe_def init_def quiet_def Let_def)
  have r: "user r = map Next (take (nat n) vs) @ [Complete]" "timeouts r = []" "quiet r"
    using take_from_task [OF st2, of vs n] st2' by (simp_all add: r_def t_def)
  have "trace (Take (From vs) n) evs = (if Timeout \<in> set evs then user r else [])"
    using st1_def q1 u1 t1 _ r(3) r(2) by (rule trace_single_task) (simp add: r_def st2_def)
  then have "trace (Take (From vs) n) evs =
     (if Timeout \<in> set evs then map Next (take (nat n) vs) @ [Complete] else [])"
    by (simp add: r(1))
  then show ?thesis by (simp add: min.commute)
qed

theorem from_take_trace_witness:
  "trace (Take (From [Num 7, Num 8, Num 9]) 2) [Timeout, Timeout] = [Next (Num 7), Next (Num 8), Complete]"
  using from_take_trace [of "[Num 7, Num 8, Num 9]" 2 "[Timeout, Timeout]"] by simp


section \<open>\<^verbatim>\<open>range\<close>\<close>

lemma js_incr_safe: "- (2 ^ 53) \<le> i \<Longrightarrow> i < 2 ^ 53 \<Longrightarrow> js_incr i = i + 1"
  by (simp add: js_incr_def)

lemma range_loop_upto:
  "- (2 ^ 53) \<le> i \<Longrightarrow> mx < 2 ^ 53 \<Longrightarrow> int (length acc) + (mx + 1 - i) < 2 ^ 32 \<Longrightarrow>
   range_loop i mx acc = Inr (acc @ map Num [i..mx])"
proof (induction i mx acc rule: range_loop.induct)
  case (1 i mx acc)
  show ?case
  proof (cases "i \<le> mx")
    case True
    then have len: "length acc < 4294967295" using "1.prems" by simp
    have "range_loop (js_incr i) mx (acc @ [Num i]) = Inr ((acc @ [Num i]) @ map Num [js_incr i..mx])"
      using True len "1.prems" by (intro "1.IH") (simp_all add: js_incr_safe)
    then show ?thesis
      using True len "1.prems" by (subst range_loop.simps) (simp add: upto_rec1 js_incr_safe)
  next
    case False
    then show ?thesis
      by (subst range_loop.simps) simp
  qed
qed

lemma range_loop_full:
  "i \<le> mx \<Longrightarrow> js_incr i = i \<Longrightarrow> range_loop i mx acc = Inl InvalidArrayLength"
proof (induction i mx acc rule: range_loop.induct)
  case (1 i mx acc)
  show ?case
  proof (cases "length acc < 4294967295")
    case True
    then show ?thesis
      using "1.prems" "1.IH" by (subst range_loop.simps) simp
  next
    case False
    then show ?thesis
      using "1.prems" by (subst range_loop.simps) simp
  qed
qed

lemma range_loop_overflow:
  "- (2 ^ 53) \<le> i \<Longrightarrow> mx < 2 ^ 53 \<Longrightarrow> 2 ^ 32 \<le> int (length acc) + (mx + 1 - i) \<Longrightarrow>
   length acc \<le> 4294967295 \<Longrightarrow> range_loop i mx acc = Inl InvalidArrayLength"
proof (induction i mx acc rule: range_loop.induct)
  case (1 i mx acc)
  have le: "i \<le> mx" using "1.prems" by simp
  show ?case
  proof (cases "length acc < 4294967295")
    case True
    have "range_loop (js_incr i) mx (acc @ [Num i]) = Inl InvalidArrayLength"
      using le True "1.prems" by (intro "1.IH") (simp_all add: js_incr_safe)
    then show ?thesis
      using le True by (subst range_loop.simps) simp
  next
    case False
    then show ?thesis
      using le by (subst range_loop.simps) simp
  qed
qed

lemma from_trace:
  "trace (From vs) evs = (if Timeout \<in> set evs then map Next vs @ [Complete] else [])"
proof -
  define st1 where "st1 = snd (observable_subscribe (From vs) recorder (init []))"
  define r where "r = run_task (TaskFrom 0 vs (Subscriber recorder)) (st1\<lparr>timeouts := [], thrown := None\<rparr>)"
  have q1: "quiet st1" and u1: "user st1 = []"
    and t1: "timeouts st1 = [TaskFrom 0 vs (Subscriber recorder)]"
    by (simp_all add: st1_def observable_subscribe_def init_def quiet_def Let_def)
  have r: "user r = map Next vs @ [Complete]" "timeouts r = []" "quiet r"
    by (simp_all add: r_def st1_def observable_subscribe_def init_def quiet_def Let_def
        emit_values_subscriber)
  have "trace (From vs) evs = (if Timeout \<in> set evs then user r else [])"
    using st1_def q1 u1 t1 r_def r(3) r(2) by (rule trace_single_task)
  then show ?thesis
    by (simp add: r(1))
qed

text \<open>
  Claim C7. For all integers \<open>mn\<close> and \<open>mx\<close> with \<open>- 2 ^ 53 \<le> mn\<close>, \<open>mx < 2 ^ 53\<close> and
  \<open>mx - mn + 1 < 2 ^ 32\<close>, \<^verbatim>\<open>range(mn, mx)\<close> returns an Observable, and its subscriber
  receives, once the timer has run, one \<^verbatim>\<open>next\<close> call for each of \<open>mn, mn + 1, ..., mx\<close> in
  ascending order and then one \<^verbatim>\<open>complete\<close> call; these are \<open>mx - mn + 1\<close> values (none when
  \<open>mx < mn\<close>). The bounds are those within which the counter of the loop counts exactly
  and the array has room for the values.
\<close>

theorem range_trace:
  assumes "- (2 ^ 53) \<le> mn" and "mx < 2 ^ 53" and "mx - mn + 1 < 2 ^ 32"
  shows "trace_range mn mx evs =
       Inr (if Timeout \<in> set evs then map (\<lambda>i. Next (Num i)) [mn..mx] @ [Complete] else [])
     \<and> length [mn..mx] = nat (mx - mn + 1)"
proof -
  have "range_loop mn mx [] = Inr ([] @ map Num [mn..mx])"
    using assms by (intro range_loop_upto) simp_all
  then show ?thesis
    by (simp add: trace_range_def range_obs_def from_trace comp_def)
qed

theorem range_trace_witness:
  "trace_range 4 8 [Timeout] =
     Inr [Next (Num 4), Next (Num 5), Next (Num 6), Next (Num 7), Next (Num 8), Complete]"
  using range_trace [of 4 8 "[Timeout]"] by (simp add: upto.simps)

text \<open>
  Outside these bounds the statement of C7 fails. \<open>- 9007199254740994 = - (2 ^ 53 + 2)\<close> and
  \<open>- 9007199254740992 = - (2 ^ 53)\<close> are doubles, the integer between them is not:
  \<^verbatim>\<open>range(-9007199254740994, -9007199254740992)\<close> emits two values where C7 promises three.
  At \<open>9007199254740992 = 2 ^ 53\<close> the counter no longer moves, so
  \<^verbatim>\<open>range(9007199254740992, 9007199254740992)\<close> fills its array and throws, as does
  \<^verbatim>\<open>range(0, 4294967295)\<close>, whose \<open>2 ^ 32\<close> values are one more than an array holds.
\<close>

theorem range_beyond_bounds:
  "trace_range (- 9007199254740994) (- 9007199254740992) [Timeout] =
     Inr [Next (Num (- 9007199254740994)), Next (Num (- 9007199254740992)), Complete]
   \<and> trace_range (- 9007199254740994) (- 9007199254740992) [Timeout] \<noteq>
     Inr [Next (Num (- 9007199254740994)), Next (Num (- 9007199254740993)),
          Next (Num (- 9007199254740992)), Complete]
   \<and> trace_range 9007199254740992 9007199254740992 [Timeout] = Inl InvalidArrayLength
   \<and> trace_range 0 4294967295 [Timeout] = Inl InvalidArrayLength"
proof -
  have "range_loop (- 9007199254740994) (- 9007199254740992) [] =
      Inr [Num (- 9007199254740994), Num (- 9007199254740992)]"
    by (simp add: range_loop.simps js_incr_def)
  moreover have "range_loop 9007199254740992 9007199254740992 [] = Inl InvalidArrayLength"
    by (rule range_loop_full) (simp_all add: js_incr_def)
  moreover have "range_loop 0 4294967295 [] = Inl InvalidArrayLength"
    by (rule range_loop_overflow) simp_all
  ultimately show ?thesis
    by (simp add: trace_range_def range_obs_def from_trace)
qed


section \<open>\<^verbatim>\<open>of\<close> and \<^verbatim>\<open>from\<close> under an early dispose\<close>

text \<open>
  Claim C9. For every value \<open>v\<close>: when the Subscription of \<^verbatim>\<open>of(v)\<close> is disposed before the
  timer callback has run, the subscriber still receives \<^verbatim>\<open>next(v)\<close> and \<^verbatim>\<open>complete()\<close>,
  once each, as soon as the timer runs, and nothing else whatever the host does; the same
  early dispose on \<^verbatim>\<open>from(vs)\<close> silences it for good.
\<close>

theorem of_ignores_dispose:
  "(let (s, st1) = observable_subscribe (Of v) recorder (init [])
    in user (run evs (dispose s st1))) = (if Timeout \<in> set evs then [Next v, Complete] else [])
   \<and> (let (s, st1) = observable_subscribe (From vs) recorder (init [])
    in user (run evs (dispose s st1))) = []"
proof -
  define st1 where "st1 = dispose (SubFlag 0) (snd (observable_subscribe (Of v) recorder (init [])))"
  define r where "r = run_task (TaskOf v (Subscriber recorder)) (st1\<lparr>timeouts := [], thrown := None\<rparr>)"
  have "run evs st1 = (if Timeout \<in> set evs then r else st1)"
    by (rule run_single_task [where t = "TaskOf v (Subscriber recorder)"])
       (simp_all add: r_def st1_def observable_subscribe_def init_def quiet_def Let_def)
  moreover have "user r = [Next v, Complete]" "user st1 = []"
    by (simp_all add: r_def st1_def observable_subscribe_def init_def Let_def)
  ultimately have A: "user (run evs st1) = (if Timeout \<in> set evs then [Next v, Complete] else [])"
    by simp
  define st2 where "st2 = dispose (SubFlag 0) (snd (observable_subscribe (From vs) recorder (init [])))"
  define r2 where "r2 = run_task (TaskFrom 0 vs (Subscriber recorder)) (st2\<lparr>timeouts := [], thrown := None\<rparr>)"
  have "run evs st2 = (if Timeout \<in> set evs then r2 else st2)"
    by (rule run_single_task [where t = "TaskFrom 0 vs (Subscriber recorder)"])
       (simp_all add: r2_def st2_def observable_subscribe_def init_def quiet_def Let_def emit_values_disposed)
  moreover have "user r2 = []" "user st2 = []"
    by (simp_all add: r2_def st2_def observable_subscribe_def init_def Let_def emit_values_disposed)
  ultimately have B: "user (run evs st2) = []"
    by simp
  show ?thesis
    using A B by (simp add: st1_def st2_def observable_subscribe_def Let_def init_def)
qed

theorem of_ignores_dispose_witness:
  "(let (s, st1) = observable_subscribe (Of (Num 5)) recorder (init [])
    in user (run [Timeout] (dispose s st1))) = [Next (Num 5), Complete]
   \<and> (let (s, st1) = observable_subscribe (From [Num 5]) recorder (init [])
    in user (run [Timeout] (dispose s st1))) = []"
  using of_ignores_dispose [of "Num 5" "[Timeout]" "[Num 5]"] by simp

section \<open>\<^verbatim>\<open>take\<close> over an upstream that emits while subscribing\<close>

lemma deliver_all_thrown: "thrown st \<noteq> None \<Longrightarrow> deliver_all sigs k st = st"
  by (cases sigs) auto

lemma deliver_all_take_uninit:
  assumes "thrown st = None" "subvars st a = None"
  shows "thrown (deliver_all sigs (TakeSink a n (Subscriber ob)) st) =
           (if counters st a < n \<and> n \<le> counters st a + int (length (nexts sigs))
            then Some UninitialisedSubscription else None)"
  using assms
proof (induction sigs arbitrary: st)
  case Nil
  then show ?case by simp
next
  case (Cons sig sigs)
  show ?case
  proof (cases sig)
    case (Next v)
    consider (lt) "counters st a < n - 1" | (eq) "counters st a = n - 1" | (gt) "n - 1 < counters st a"
      by linarith
    then show ?thesis
    proof cases
      case lt
      then show ?thesis using Cons.prems Next
        by (simp add: Let_def Cons.IH)
    next
      case eq
      then show ?thesis using Cons.prems Next
        by (simp add: Let_def deliver_all_thrown)
    next
      case gt
      then show ?thesis using Cons.prems Next
        by (simp add: Let_def Cons.IH)
    qed
  next
    case (Error m)
    then show ?thesis using Cons.prems by (simp add: Cons.IH)
  next
    case Complete
    then show ?thesis using Cons.prems by (simp add: Cons.IH)
  qed
qed

lemma deliver_all_take_uninit_nexts:
  assumes "thrown st = None" "subvars st a = None" "0 \<le> counters st a"
  shows "nexts (user (deliver_all sigs (TakeSink a n (Subscriber recorder)) st)) =
           nexts (user st) @ take (nat (n - counters st a)) (nexts sigs)"
  using assms
proof (induction sigs arbitrary: st)
  case Nil
  then show ?case by simp
next
  case (Cons sig sigs)
  show ?case
  proof (cases sig)
    case (Next v)
    consider (lt) "counters st a < n - 1" | (eq) "counters st a = n - 1" | (gt) "n - 1 < counters st a"
      by linarith
    then show ?thesis
    proof cases
      case lt
      then have "nat (n - counters st a) = Suc (nat (n - (counters st a + 1)))"
        by linarith
      then show ?thesis using Cons.prems Next lt
        by (simp add: Let_def Cons.IH)
    next
      case eq
      then show ?thesis using Cons.prems Next
        by (simp add: Let_def deliver_all_thrown)
    next
      case gt
      then show ?thesis using Cons.prems Next
        by (simp add: Let_def Cons.IH)
    qed
  next
    case (Error m)
    then show ?thesis using Cons.prems by (simp add: Cons.IH)
  next
    case Complete
    then show ?thesis using Cons.prems by (simp add: Cons.IH)
  qed
qed

text \<open>
  Claim C10. Let the upstream send the signals \<open>sync\<close> from inside its subscribe function.
  Subscribing to \<^verbatim>\<open>upstream.take(n)\<close> ends with the fault of the uninitialised
  \<^verbatim>\<open>subscription\<close> exactly when \<open>1 \<le> n\<close> and \<open>sync\<close> holds \<open>n\<close> values or more; the fault
  comes on the \<open>n\<close>-th value, after that value went downstream and before any later one.
  With fewer than \<open>n\<close> values sent while subscribing there is no fault.
\<close>

theorem take_sync_fault:
  "thrown st = None \<Longrightarrow>
   thrown (snd (observable_subscribe (Take (Custom tag sync batches) n) ob st)) =
     (if 1 \<le> n \<and> n \<le> int (length (nexts sync)) then Some UninitialisedSubscription else None)
   \<and> nexts (user (snd (observable_subscribe (Take (Custom tag sync batches) n) recorder
                      (st\<lparr>user := l\<rparr>)))) = nexts l @ take (nat n) (nexts sync)"
  by (simp add: observable_subscribe_def Let_def deliver_all_take_uninit
      deliver_all_take_uninit_nexts split_beta)

theorem take_sync_fault_witness:
  "thrown (init []) = None
   \<and> thrown (snd (observable_subscribe
         (Take (Custom 0 [Next (Num 1), Next (Num 2), Next (Num 3)] []) 2) recorder (init [])))
       = Some UninitialisedSubscription
   \<and> nexts (user (snd (observable_subscribe
         (Take (Custom 0 [Next (Num 1), Next (Num 2), Next (Num 3)] []) 2) recorder
           (init []\<lparr>user := []\<rparr>)))) = [Num 1, Num 2]"
  using take_sync_fault [of "init []" 0 "[Next (Num 1), Next (Num 2), Next (Num 3)]" "[]" 2 recorder "[]"]
  by (simp add: init_def)

section \<open>Completion of \<^verbatim>\<open>merge\<close> and \<^verbatim>\<open>mergeMap\<close>\<close>

lemmas eval_simps = trace_def observable_subscribe_def init_def run_def Let_def push_subscription_def

text \<open>
  Claim C3 says that \<^verbatim>\<open>merge\<close> completes exactly once and only after every source has
  completed, also for sources that complete while being subscribed. The code compares
  \<^verbatim>\<open>completeCount\<close> with the number of subscriptions pushed so far:
  \<^verbatim>\<open>merge(of(5), empty())\<close> completes at subscribe time, before \<^verbatim>\<open>of(5)\<close> has emitted, and
  a second time after it; \<^verbatim>\<open>merge(empty(), empty())\<close> never completes.
\<close>

theorem merge_sync_complete:
  "trace (Merge [Of (Num 5), Empty]) [] = [Complete]
   \<and> trace (Merge [Of (Num 5), Empty]) [Timeout] = [Complete, Next (Num 5), Complete]
   \<and> trace (Merge [Empty, Empty]) [Timeout] = []"
  by (simp add: eval_simps)

text \<open>
  Claim C2 says that \<^verbatim>\<open>mergeMap\<close> never completes downstream before the outer source and
  every inner Observable subscribed so far have completed. The same comparison with the
  length of \<^verbatim>\<open>subscriptions\<close> lets \<^verbatim>\<open>empty().join().mergeMap(v => of(v))\<close> complete at
  subscribe time while the inner \<^verbatim>\<open>of\<close> has neither emitted nor completed, and lets
  \<^verbatim>\<open>from([1, 2]).mergeMap(v => v == 1 ? empty() : of(v))\<close> complete on the first value,
  before the outer source has completed.
\<close>

theorem mergeMap_early_complete:
  "trace (MergeMap (Join Empty) Of) [] = [Complete]
   \<and> trace (MergeMap (Join Empty) Of) [Timeout] = [Complete, Next (Arr []), Complete]
   \<and> trace (MergeMap (From [Num 1, Num 2]) (\<lambda>v. if v = Num 1 then Empty else Of v)) [Timeout]
       = [Complete]
   \<and> trace (MergeMap (From [Num 1, Num 2]) (\<lambda>v. if v = Num 1 then Empty else Of v)) [Timeout, Timeout]
       = [Complete, Next (Num 2), Complete]"
  by (simp add: eval_simps)

section \<open>Subject\<close>

text \<open>
  Claim C5. Let two subscriptions be made to a Subject, \<open>ob1\<close> then \<open>ob2\<close>. A \<^verbatim>\<open>next(v)\<close>
  issued after both calls the observers the Subject already had, then \<open>ob1\<close>, then \<open>ob2\<close>,
  each with \<open>v\<close>. A \<^verbatim>\<open>next(v)\<close> issued before the second subscription does not reach
  \<open>ob2\<close>. Disposing the Subscription of one of them removes that observer and no other:
  later broadcasts reach exactly the remaining ones.
\<close>

theorem subject_multicast:
  assumes "subject_ok s"
    and "subject_subscribe ob1 s = (r1, s1)"
    and "subject_subscribe ob2 s1 = (r2, s2)"
  shows "subject_next v s2 u = observer_next ob2 v (observer_next ob1 v (subject_next v s u))
    \<and> subject_next v s1 u = observer_next ob1 v (subject_next v s u)
    \<and> subject_next v (subject_dispose r1 s2) u = observer_next ob2 v (subject_next v s u)
    \<and> subject_next v (subject_dispose r2 s2) u = observer_next ob1 v (subject_next v s u)
    \<and> observers (subject_dispose r1 s2) = observers s @ [(r2, ob2)]
    \<and> observers (subject_dispose r2 s2) = observers s @ [(r1, ob1)]"
proof -
  have s1: "s1 = s\<lparr>observers := observers s @ [(r1, ob1)], next_ref := r1 + 1\<rparr>"
    and r1: "r1 = next_ref s"
    using assms(2) by (auto simp: subject_subscribe_def Let_def)
  have s2: "s2 = s1\<lparr>observers := observers s1 @ [(r2, ob2)], next_ref := r2 + 1\<rparr>"
    and r2: "r2 = next_ref s1"
    using assms(3) by (auto simp: subject_subscribe_def Let_def)
  have keep1: "filter (\<lambda>(r', ob). r' \<noteq> r1) (observers s) = observers s"
    using assms(1) by (auto simp: subject_ok_def r1 list_all_iff filter_id_conv)
  have keep2: "filter (\<lambda>(r', ob). r' \<noteq> r2) (observers s) = observers s"
    using assms(1) by (auto simp: subject_ok_def r2 s1 r1 list_all_iff filter_id_conv)
  have ne: "r1 \<noteq> r2"
    by (simp add: r1 r2 s1)
  show ?thesis
    using ne by (simp add: subject_next_def subject_dispose_def s1 s2 keep1 keep2)
qed

theorem subject_multicast_witness:
  "subject_ok (new_subject :: (nat \<times> val) list subject)
   \<and> subject_next (Num 7)
         (snd (subject_subscribe (tagged 2) (snd (subject_subscribe (tagged 1) new_subject)))) []
       = [(1, Num 7), (2, Num 7)]
   \<and> subject_next (Num 7) (snd (subject_subscribe (tagged 1) new_subject)) [] = [(1, Num 7)]
   \<and> subject_next (Num 7)
         (subject_dispose (fst (subject_subscribe (tagged 1) new_subject))
           (snd (subject_subscribe (tagged 2) (snd (subject_subscribe (tagged 1) new_subject))))) []
       = [(2, Num 7)]"
proof -
  have ok: "subject_ok (new_subject :: (nat \<times> val) list subject)"
    by (simp add: subject_ok_def new_subject_def)
  have nx: "subject_next (Num 7) new_subject ([] :: (nat \<times> val) list) = []"
    by (simp add: subject_next_def new_subject_def)
  show ?thesis
    using subject_multicast [OF ok prod.collapse [symmetric] prod.collapse [symmetric],
        where ?ob1.0 = "tagged 1" and ?ob2.0 = "tagged 2" and v = "Num 7" and u = "[]"] ok
    by (simp add: nx tagged_def observer_next_def)
qed

section \<open>Disposing twice\<close>

lemma keeps_refl [simp]: "keeps st st"
  by (simp add: keeps_def)

lemma keeps_upd [simp]:
  "keeps st (st'\<lparr>user := u\<rparr>) = keeps st st'"
  "keeps st (st'\<lparr>fresh_buffer := fb\<rparr>) = keeps st st'"
  "keeps st (st'\<lparr>counters := c\<rparr>) = keeps st st'"
  "keeps st (st'\<lparr>subvars := sv\<rparr>) = keeps st st'"
  "keeps st (st'\<lparr>subarrays := sa\<rparr>) = keeps st st'"
  "keeps st (st'\<lparr>buffers := b\<rparr>) = keeps st st'"
  "keeps st (st'\<lparr>timeouts := t\<rparr>) = keeps st st'"
  "keeps st (st'\<lparr>intervals := i\<rparr>) = keeps st st'"
  "keeps st (st'\<lparr>listeners := l\<rparr>) = keeps st st'"
  "keeps st (st'\<lparr>host := h\<rparr>) = keeps st st'"
  "keeps st (st'\<lparr>thrown := x\<rparr>) = keeps st st'"
  by (simp_all add: keeps_def)

lemma keeps_alloc [simp]:
  "keeps st0 st \<Longrightarrow> keeps st0 (st\<lparr>fresh := Suc (fresh st), flags := (flags st)(fresh st := b)\<rparr>)"
  "keeps st0 st \<Longrightarrow> keeps st0 (st\<lparr>fresh := Suc (fresh st)\<rparr>)"
  "keeps st0 st \<Longrightarrow> keeps st0 (st\<lparr>flags := (flags st)(a := True)\<rparr>)"
  by (auto simp: keeps_def fun_upd_apply)

lemma keeps_dispose_upto: "keeps st0 st \<Longrightarrow> keeps st0 (dispose_upto d s st)"
proof (induction d s st rule: dispose_upto.induct)
  case (6 d a st)
  have "keeps st0 (fold (dispose_upto d) xs st1)"
    if "set xs \<subseteq> set (subarrays st a)" "keeps st0 st1" for xs and st1 :: "'a state"
    using that
  proof (induction xs arbitrary: st1)
    case Nil
    then show ?case by simp
  next
    case (Cons x xs)
    then show ?case
      using "6.IH" [of x st1] by auto
  qed
  then show ?case using "6.prems" by simp
qed (auto simp: keeps_def fun_upd_apply)

lemma keeps_dispose: "keeps st0 st \<Longrightarrow> keeps st0 (dispose s st)"
  by (simp add: dispose_def keeps_dispose_upto)

lemma keeps_push [simp]: "keeps st (push_subscription a s st') = keeps st st'"
  by (simp add: push_subscription_def)

lemma keeps_all:
  "keeps st0 st \<Longrightarrow> keeps st0 (snd (subscribe src k st))"
  "keeps st0 st \<Longrightarrow> keeps st0 (subscribe_each os a k st)"
  "keeps st0 st \<Longrightarrow> keeps st0 (deliver sig k st)"
  "keeps st0 st \<Longrightarrow> keeps st0 (deliver_all sigs k st)"
proof (induction src k st and os a k st and sig k st and sigs k st
    rule: subscribe_subscribe_each_deliver_deliver_all.induct)
qed (auto simp: Let_def keeps_dispose split_beta split: signal.splits option.splits)

lemma keeps_emit_values: "keeps st0 st \<Longrightarrow> keeps st0 (emit_values a vs k st)"
  by (induction vs arbitrary: st) (auto simp: keeps_all)

lemma keeps_run_task: "keeps st0 st \<Longrightarrow> keeps st0 (run_task t st)"
  by (cases t) (auto simp: keeps_all keeps_emit_values Let_def)

lemma keeps_dispatch_to: "keeps st0 st \<Longrightarrow> keeps st0 (dispatch_to ls ev st)"
  by (induction ls ev st rule: dispatch_to.induct) (auto simp: keeps_all)

lemma keeps_step: "keeps st0 st \<Longrightarrow> keeps st0 (step ev st)"
  by (cases ev) (auto simp: keeps_all keeps_run_task keeps_dispatch_to Let_def split: list.splits option.splits)

lemma keeps_run: "keeps st0 st \<Longrightarrow> keeps st0 (run evs st)"
  unfolding run_def by (induction evs arbitrary: st) (auto simp: keeps_step)

lemma dispose_guarded_noop: "guard_of s = Some a \<Longrightarrow> flags st a \<Longrightarrow> dispose s st = st"
  by (cases s) (auto simp: dispose_def)

lemma dispose_guarded_sets: "guard_of s = Some a \<Longrightarrow> flags (dispose s st) a"
  by (cases s) (auto simp: dispose_def)

lemma subscribe_guarded:
  "guarded src \<Longrightarrow> guard_of (fst (subscribe src k st)) = Some (fresh st)
     \<and> fresh st < fresh (snd (subscribe src k st))"
  using keeps_all(3) [of "st\<lparr>fresh := Suc (fresh st), flags := (flags st)(fresh st := False)\<rparr>"
      "st\<lparr>fresh := Suc (fresh st), flags := (flags st)(fresh st := False)\<rparr>" Complete k]
  by (cases src) (auto simp: Let_def keeps_def)

text \<open>
  Claim C8. Let \<open>s\<close> be the Subscription a creation function (\<^verbatim>\<open>empty\<close>, \<^verbatim>\<open>of\<close>, \<^verbatim>\<open>from\<close>,
  \<^verbatim>\<open>interval\<close>, \<^verbatim>\<open>fromEvent\<close>) returned. Once \<open>s\<close> has been disposed, at any moment and
  whatever the host did before and does afterwards, disposing it again changes nothing:
  the first dispose of an \<^verbatim>\<open>interval\<close> calls \<^verbatim>\<open>clearInterval\<close> once, that of a
  \<^verbatim>\<open>fromEvent\<close> calls \<^verbatim>\<open>removeEventListener\<close> once, and no later dispose calls them
  again. The class \<^verbatim>\<open>Subscription\<close> has no guard of its own: a Subscription built on a
  bare teardown action runs it at every dispose, and the Subscription of an operator
  passes every dispose on to its upstream.
\<close>

theorem dispose_twice:
  "guarded src \<Longrightarrow>
   (let (s, st1) = subscribe src k st;
        st2 = dispose s (run evs1 st1);
        st3 = run evs2 st2
    in dispose s st3 = st3
       \<and> host st2 = host (run evs1 st1) @
            (case s of SubInterval a \<Rightarrow> if flags (run evs1 st1) a then [] else [ClearInterval a]
                     | SubEvent a el name \<Rightarrow> if flags (run evs1 st1) a then [] else [RemoveEventListener el name a]
                     | _ \<Rightarrow> []))
   \<and> host (dispose (SubCustom tag) (dispose (SubCustom tag) st')) = host st' @ [Teardown tag, Teardown tag]
   \<and> dispose (SubUp s') st' = dispose s' st'"
proof -
  assume g: "guarded src"
  obtain s st1 where sub: "subscribe src k st = (s, st1)"
    by (cases "subscribe src k st")
  define st2 where "st2 = dispose s (run evs1 st1)"
  define st3 where "st3 = run evs2 st2"
  have gs: "guard_of s = Some (fresh st)" and lt: "fresh st < fresh st1"
    using subscribe_guarded [OF g, of k st] sub by simp_all
  have "keeps st1 st2"
    unfolding st2_def by (intro keeps_dispose keeps_run keeps_refl)
  then have "fresh st < fresh st2"
    using lt by (simp add: keeps_def)
  moreover have "flags st2 (fresh st)"
    unfolding st2_def using gs by (rule dispose_guarded_sets)
  moreover have "keeps st2 st3"
    unfolding st3_def by (intro keeps_run keeps_refl)
  ultimately have "flags st3 (fresh st)"
    by (simp add: keeps_def)
  then have A: "dispose s st3 = st3"
    using gs by (simp add: dispose_guarded_noop)
  have B: "host st2 = host (run evs1 st1) @
            (case s of SubInterval a \<Rightarrow> if flags (run evs1 st1) a then [] else [ClearInterval a]
                     | SubEvent a el name \<Rightarrow> if flags (run evs1 st1) a then [] else [RemoveEventListener el name a]
                     | _ \<Rightarrow> [])"
    using gs by (cases s) (auto simp: st2_def dispose_def)
  have C: "host (dispose (SubCustom tag) (dispose (SubCustom tag) st')) = host st' @ [Teardown tag, Teardown tag]"
    by (simp add: dispose_def)
  have D: "dispose (SubUp s') st' = dispose s' st'"
    by (simp add: dispose_def)
  show ?thesis
    using A B C D by (simp add: sub st2_def st3_def Let_def)
qed


theorem dispose_twice_witness:
  "guarded (Interval 500)
   \<and> (let (s, st1) = subscribe (Interval 500) (Subscriber recorder) (init []);
           st2 = dispose s (run [Tick 0] st1);
           st3 = run [Tick 0] st2
       in dispose s st3 = st3 \<and> host st2 = [ClearInterval 0] \<and> user st3 = [Next (Num 0)])"
proof -
  have g: "guarded (Interval 500)" by simp
  show ?thesis
    using dispose_twice [OF g, of "Subscriber recorder" "init []" "[Tick 0]" "[Tick 0]"]
    by (simp add: init_def run_def Let_def dispose_def split_beta)
qed

section \<open>\<^verbatim>\<open>map\<close> after \<^verbatim>\<open>map\<close>\<close>

text \<open>
  An observer \<open>b\<close> that treats every call as the subscriber \<open>ob\<close> would can stand in its
  place under any source: the two runs differ only in the observers the host holds.
\<close>

lemma plug_state_sel [simp]:
  "user (plug_state ob b st) = user st"
  "fresh (plug_state ob b st) = fresh st"
  "fresh_buffer (plug_state ob b st) = fresh_buffer st"
  "flags (plug_state ob b st) = flags st"
  "counters (plug_state ob b st) = counters st"
  "subvars (plug_state ob b st) = subvars st"
  "subarrays (plug_state ob b st) = subarrays st"
  "buffers (plug_state ob b st) = buffers st"
  "host (plug_state ob b st) = host st"
  "thrown (plug_state ob b st) = thrown st"
  "timeouts (plug_state ob b st) = map (plug_task ob b) (timeouts st)"
  "intervals (plug_state ob b st) = map (\<lambda>(h, k). (h, plug ob b k)) (intervals st)"
  "listeners (plug_state ob b st) = map (\<lambda>(e, n, h, k). (e, n, h, plug ob b k)) (listeners st)"
  by (simp_all add: plug_state_def)

lemma plug_in:
  "plug_state ob b (st\<lparr>user := u\<rparr>) = (plug_state ob b st)\<lparr>user := u\<rparr>"
  "plug_state ob b (st\<lparr>fresh := fr\<rparr>) = (plug_state ob b st)\<lparr>fresh := fr\<rparr>"
  "plug_state ob b (st\<lparr>flags := fl\<rparr>) = (plug_state ob b st)\<lparr>flags := fl\<rparr>"
  "plug_state ob b (st\<lparr>counters := c\<rparr>) = (plug_state ob b st)\<lparr>counters := c\<rparr>"
  "plug_state ob b (st\<lparr>subvars := sv\<rparr>) = (plug_state ob b st)\<lparr>subvars := sv\<rparr>"
  "plug_state ob b (st\<lparr>subarrays := sa\<rparr>) = (plug_state ob b st)\<lparr>subarrays := sa\<rparr>"
  "plug_state ob b (st\<lparr>buffers := bf\<rparr>) = (plug_state ob b st)\<lparr>buffers := bf\<rparr>"
  "plug_state ob b (st\<lparr>host := h\<rparr>) = (plug_state ob b st)\<lparr>host := h\<rparr>"
  "plug_state ob b (st\<lparr>thrown := x\<rparr>) = (plug_state ob b st)\<lparr>thrown := x\<rparr>"
  "plug_state ob b (st\<lparr>fresh_buffer := fb\<rparr>) = (plug_state ob b st)\<lparr>fresh_buffer := fb\<rparr>"
  "plug_state ob b (st\<lparr>timeouts := ts\<rparr>) = (plug_state ob b st)\<lparr>timeouts := map (plug_task ob b) ts\<rparr>"
  "plug_state ob b (st\<lparr>intervals := is\<rparr>) =
     (plug_state ob b st)\<lparr>intervals := map (\<lambda>(h, k). (h, plug ob b k)) is\<rparr>"
  "plug_state ob b (st\<lparr>listeners := ls\<rparr>) =
     (plug_state ob b st)\<lparr>listeners := map (\<lambda>(e, n, h, k). (e, n, h, plug ob b k)) ls\<rparr>"
  by (simp_all add: plug_state_def)

lemmas plug_out = plug_in(1-10) [symmetric]

lemma plug_push [simp]:
  "push_subscription a s (plug_state ob b st) = plug_state ob b (push_subscription a s st)"
  by (simp add: push_subscription_def plug_in)

lemma plug_dispose_upto:
  "dispose_upto d s (plug_state ob b st) = plug_state ob b (dispose_upto d s st)"
proof (induction d s st rule: dispose_upto.induct)
  case (6 d a st)
  have "fold (dispose_upto d) xs (plug_state ob b st1) = plug_state ob b (fold (dispose_upto d) xs st1)"
    if "set xs \<subseteq> set (subarrays st a)" for xs and st1 :: "'a state"
    using that
  proof (induction xs arbitrary: st1)
    case Nil
    then show ?case by simp
  next
    case (Cons x xs)
    then show ?case
      using "6.IH" [of x st1] by simp
  qed
  then show ?case by simp
qed (simp_all add: plug_in filter_map comp_def split_def)

lemma plug_dispose [simp]: "dispose s (plug_state ob b st) = plug_state ob b (dispose s st)"
  by (simp add: dispose_def plug_dispose_upto)

lemma plug_take_count: "take_count a (plug_state ob b st) = plug_state ob b (take_count a st)"
  by (simp add: plug_in)

lemma plug_take_release:
  "take_release a (plug_state ob b st) = plug_state ob b (take_release a st)"
  by (simp add: plug_in split: option.splits)

lemma plug_all:
  assumes "acts_like b ob"
  shows "subscribe src (plug ob b k) (plug_state ob b st) =
           (fst (subscribe src k st), plug_state ob b (snd (subscribe src k st)))"
    and "subscribe_each os a (plug ob b k) (plug_state ob b st) = plug_state ob b (subscribe_each os a k st)"
    and "deliver sig (plug ob b k) (plug_state ob b st) = plug_state ob b (deliver sig k st)"
    and "deliver_all sigs (plug ob b k) (plug_state ob b st) = plug_state ob b (deliver_all sigs k st)"
proof (induction src k st and os a k st and sig k st and sigs k st
    rule: subscribe_subscribe_each_deliver_deliver_all.induct)
  case (1 k st)
  then show ?case by (simp add: Let_def plug_out)
next
  case (2 v k st)
  then show ?case by (simp add: Let_def plug_in)
next
  case (3 vs k st)
  then show ?case by (simp add: Let_def plug_in)
next
  case (4 p k st)
  then show ?case by (simp add: Let_def plug_in)
next
  case (5 el name k st)
  then show ?case by (simp add: Let_def plug_in)
next
  case (6 os k st)
  then show ?case by (simp add: Let_def plug_out)
next
  case (7 src n k st)
  then show ?case by (simp add: Let_def split_beta plug_out)
next
  case (8 src f k st)
  then show ?case by (simp add: Let_def split_beta)
next
  case (9 src f k st)
  then show ?case by (simp add: Let_def split_beta plug_out)
next
  case (10 src k st)
  then show ?case by (simp add: Let_def split_beta plug_out)
next
  case (11 tag sync batches k st)
  then show ?case by (simp add: Let_def split_beta plug_in)
next
  case (12 a k st)
  then show ?case by simp
next
  case (13 src os a k st)
  then show ?case by (simp add: Let_def split_beta)
next
  case (14 sig ob' st)
  show ?case
  proof (cases "ob' = ob")
    case True
    then show ?thesis
      using assms by (auto simp: acts_like_def plug_in split: signal.splits)
  next
    case False
    then show ?thesis by (auto simp: plug_in split: signal.splits)
  qed
next
  case (15 sig a n k st)
  show ?case
  proof (cases "thrown st")
    case live: None
    show ?thesis
    proof (cases sig)
      case (Next v)
      define st1 where "st1 = (if counters st a < n - 1 then deliver (Next v) k st else st)"
      have 1: "(if counters st a < n - 1 then deliver (Next v) (plug ob b k) (plug_state ob b st)
                else plug_state ob b st) = plug_state ob b st1"
        using "15.IH"(1) [of v] Next live by (simp add: st1_def)
      have 2: "deliver Complete (plug ob b k) (deliver (Next v) (plug ob b k) (plug_state ob b st1))
                = plug_state ob b (deliver Complete k (deliver (Next v) k st1))"
        if "thrown st1 = None" "counters st1 a = n - 1"
        using "15.IH"(2) [of v st1] "15.IH"(3) [of v st1] Next live that by simp
      have "deliver sig (plug ob b (TakeSink a n k)) (plug_state ob b st) =
          take_count a
            (if thrown st1 = None \<and> counters st1 a = n - 1
             then take_release a (deliver Complete (plug ob b k)
                    (deliver (Next v) (plug ob b k) (plug_state ob b st1)))
             else plug_state ob b st1)"
        using Next live 1 by (simp add: Let_def del: take_count_def take_release_def)
      also have "\<dots> = plug_state ob b (take_count a
            (if thrown st1 = None \<and> counters st1 a = n - 1
             then take_release a (deliver Complete k (deliver (Next v) k st1))
             else st1))"
        using 2 by (simp add: plug_take_count plug_take_release
            del: take_count_def take_release_def)
      also have "\<dots> = plug_state ob b (deliver sig (TakeSink a n k) st)"
        using Next live by (simp add: Let_def st1_def del: take_count_def take_release_def)
      finally show ?thesis .
    next
      case (Error m)
      then show ?thesis using "15.IH"(4) by simp
    next
      case Complete
      then show ?thesis using "15.IH"(5) by simp
    qed
  next
    case (Some e)
    then show ?thesis by simp
  qed
next
  case (16 sig f k st)
  then show ?case by (simp split: signal.splits)
next
  case (17 sig a k st)
  then show ?case by (simp add: plug_out split: signal.splits)
next
  case (18 sig a f k st)
  then show ?case by (simp add: Let_def split_beta plug_out split: signal.splits)
next
  case (19 sig a k st)
  then show ?case by (simp add: Let_def split_beta plug_out split: signal.splits)
next
  case (20 sig a k st)
  then show ?case by (simp add: Let_def split_beta plug_out split: signal.splits)
next
  case (21 k st)
  then show ?case by simp
next
  case (22 sig sigs k st)
  then show ?case by simp
qed

lemma plug_emit_values:
  "acts_like b ob \<Longrightarrow>
   emit_values a vs (plug ob b k) (plug_state ob b st) = plug_state ob b (emit_values a vs k st)"
  by (induction vs arbitrary: st) (simp_all add: plug_all)

lemma plug_run_task:
  "acts_like b ob \<Longrightarrow>
   run_task (plug_task ob b t) (plug_state ob b st) = plug_state ob b (run_task t st)"
  by (cases t) (simp_all add: plug_all plug_emit_values Let_def)

lemma plug_dispatch_to:
  "acts_like b ob \<Longrightarrow>
   dispatch_to (map (\<lambda>(e, n, h, k). (e, n, h, plug ob b k)) ls) ev (plug_state ob b st) =
     plug_state ob b (dispatch_to ls ev st)"
proof (induction ls ev st rule: dispatch_to.induct)
  case (1 ev st)
  then show ?case by simp
next
  case (2 el name h k ls ev st)
  have "deliver (Next ev) (plug ob b k) (plug_state ob b (st\<lparr>thrown := None\<rparr>)) =
        plug_state ob b (deliver (Next ev) k (st\<lparr>thrown := None\<rparr>))"
    using 2(2) by (rule plug_all(3))
  then show ?case
    using 2 by (cases "h \<in> set (map (\<lambda>(e, n, h', k'). h') (listeners st))")
      (simp_all add: plug_in comp_def split_def)
qed

lemma map_of_plug:
  "map_of (map (\<lambda>(h, k). (h, plug ob b k)) xs) h = map_option (plug ob b) (map_of xs h)"
  by (induction xs) (auto simp: fun_upd_apply)

lemma plug_step:
  assumes "acts_like b ob"
  shows "step ev (plug_state ob b st) = plug_state ob b (step ev st)"
proof (cases ev)
  case Timeout
  show ?thesis
  proof (cases "timeouts st")
    case Nil
    then show ?thesis using Timeout by simp
  next
    case (Cons t ts)
    have "run_task (plug_task ob b t) (plug_state ob b (st\<lparr>timeouts := ts, thrown := None\<rparr>)) =
          plug_state ob b (run_task t (st\<lparr>timeouts := ts, thrown := None\<rparr>))"
      using assms by (rule plug_run_task)
    then show ?thesis
      using Timeout Cons by (simp add: plug_in)
  qed
next
  case (Tick h)
  show ?thesis
  proof (cases "map_of (intervals st) h")
    case None
    then show ?thesis using Tick by (simp add: map_of_plug)
  next
    case (Some k)
    have "deliver (Next (Num (counters st h))) (plug ob b k) (plug_state ob b (st\<lparr>thrown := None\<rparr>)) =
          plug_state ob b (deliver (Next (Num (counters st h))) k (st\<lparr>thrown := None\<rparr>))"
      using assms by (rule plug_all(3))
    then show ?thesis
      using Tick Some by (simp add: map_of_plug plug_in Let_def)
  qed
next
  case (Dispatch el name v)
  have "dispatch_to (map (\<lambda>(e, n, h, k). (e, n, h, plug ob b k))
           (filter (\<lambda>(e, n, h, k). e = el \<and> n = name) (listeners st))) v (plug_state ob b st) =
        plug_state ob b (dispatch_to (filter (\<lambda>(e, n, h, k). e = el \<and> n = name) (listeners st)) v st)"
    using assms by (rule plug_dispatch_to)
  then show ?thesis
    using Dispatch by (simp add: filter_map comp_def split_def)
qed

lemma plug_run:
  "acts_like b ob \<Longrightarrow> run evs (plug_state ob b st) = plug_state ob b (run evs st)"
  unfolding run_def by (induction evs arbitrary: st) (simp_all add: plug_step)

lemma observer_map [simp]:
  "observer_next (map_observer h ob) v u = observer_next ob (h v) u"
  "observer_error (map_observer h ob) m u = observer_error ob m u"
  "observer_complete (map_observer h ob) u = observer_complete ob u"
  by (simp_all add: map_observer_def observer_next_def observer_error_def observer_complete_def
      split: option.splits)

lemma acts_like_map: "acts_like (MapSink h (Subscriber ob)) (map_observer h ob)"
  by (auto simp: acts_like_def split: signal.splits)

lemma plug_state_init [simp]: "plug_state ob b (init u) = init u"
  by (simp add: plug_state_def init_def)

lemma observe_plug:
  assumes "acts_like b ob'"
  shows "user (run evs (snd (subscribe src b (init u)))) = observe src ob' u evs"
proof -
  have "subscribe src (plug ob' b (Subscriber ob')) (plug_state ob' b (init u)) =
          (fst (subscribe src (Subscriber ob') (init u)),
           plug_state ob' b (snd (subscribe src (Subscriber ob') (init u))))"
    using assms by (rule plug_all(1))
  then have "snd (subscribe src b (init u)) = plug_state ob' b (snd (subscribe src (Subscriber ob') (init u)))"
    by simp
  then show ?thesis
    using assms by (simp add: observe_def observable_subscribe_def plug_run)
qed

lemma observe_map: "observe (Map src h) ob u evs = observe src (map_observer h ob) u evs"
  using observe_plug [OF acts_like_map, of evs src h ob u]
  by (simp add: observe_def observable_subscribe_def split_beta)

lemma trace_observe: "trace src evs = observe src recorder [] evs"
  by (simp add: trace_def observe_def)

lemma map_observer_comp: "map_observer f (map_observer g ob) = map_observer (\<lambda>v. g (f v)) ob"
  by (simp add: map_observer_def option.map_comp comp_def)

text \<open>
  Claim C6. For every source Observable and all functions \<open>f\<close> and \<open>g\<close>, a subscriber of
  \<^verbatim>\<open>source.map(f).map(g)\<close> and a subscriber of \<^verbatim>\<open>source.map(v => g(f(v)))\<close> with the same
  callbacks end in the same world under every schedule of the host; for the recording
  subscriber this is the same sequence of values, errors and completions.
\<close>

theorem map_fusion:
  "observe (Map (Map src f) g) ob u evs = observe (Map src (\<lambda>v. g (f v))) ob u evs
   \<and> trace (Map (Map src f) g) evs = trace (Map src (\<lambda>v. g (f v))) evs"
  by (simp add: trace_observe observe_map map_observer_comp)


theorem map_fusion_witness:
  "trace (Map (Map (From [Num 1, Num 2]) (\<lambda>v. Arr [v])) (\<lambda>v. Arr [v, v])) [Timeout]
     = [Next (Arr [Arr [Num 1], Arr [Num 1]]), Next (Arr [Arr [Num 2], Arr [Num 2]]), Complete]
   \<and> trace (Map (From [Num 1, Num 2]) (\<lambda>v. Arr [Arr [v], Arr [v]])) [Timeout]
     = [Next (Arr [Arr [Num 1], Arr [Num 1]]), Next (Arr [Arr [Num 2], Arr [Num 2]]), Complete]"
  using map_fusion [of "From [Num 1, Num 2]" "\<lambda>v. Arr [v]" "\<lambda>v. Arr [v, v]" recorder "[]" "[Timeout]"]
  by (simp add: eval_simps)

section \<open>\<^verbatim>\<open>join\<close>\<close>


lemma join_log_values [simp]: "join_log buf (map Next vs) = []"
  by (induction vs arbitrary: buf) simp_all





subsection \<open>Observers that end in the recorder\<close>

lemma pure_state_upd [simp]:
  "pure_state (st\<lparr>user := u\<rparr>) = pure_state st"
  "pure_state (st\<lparr>fresh := fr\<rparr>) = pure_state st"
  "pure_state (st\<lparr>fresh_buffer := fb\<rparr>) = pure_state st"
  "pure_state (st\<lparr>flags := fl\<rparr>) = pure_state st"
  "pure_state (st\<lparr>counters := c\<rparr>) = pure_state st"
  "pure_state (st\<lparr>subvars := sv\<rparr>) = pure_state st"
  "pure_state (st\<lparr>subarrays := sa\<rparr>) = pure_state st"
  "pure_state (st\<lparr>buffers := bf\<rparr>) = pure_state st"
  "pure_state (st\<lparr>host := h\<rparr>) = pure_state st"
  "pure_state (st\<lparr>thrown := x\<rparr>) = pure_state st"
  by (simp_all add: pure_state_def)

lemma pure_state_queue:
  "pure_state st \<Longrightarrow> pure_state (st\<lparr>timeouts := ts\<rparr>) = list_all pure_task ts"
  "pure_state st \<Longrightarrow> pure_state (st\<lparr>intervals := is\<rparr>) = list_all (\<lambda>(h, k). pure k) is"
  "pure_state st \<Longrightarrow> pure_state (st\<lparr>listeners := ls\<rparr>) = list_all (\<lambda>(e, n, h, k). pure k) ls"
  by (simp_all add: pure_state_def)

lemma pure_state_sel:
  "pure_state st \<Longrightarrow> list_all pure_task (timeouts st)"
  "pure_state st \<Longrightarrow> list_all (\<lambda>(h, k). pure k) (intervals st)"
  "pure_state st \<Longrightarrow> list_all (\<lambda>(e, n, h, k). pure k) (listeners st)"
  by (simp_all add: pure_state_def)

lemma list_all_filterI: "list_all P xs \<Longrightarrow> list_all P (filter Q xs)"
  by (simp add: list_all_iff)

lemma pure_push [simp]: "pure_state (push_subscription a s st) = pure_state st"
  by (simp add: push_subscription_def pure_state_def)

lemma pure_dispose_upto: "pure_state st \<Longrightarrow> pure_state (dispose_upto d s st)"
proof (induction d s st rule: dispose_upto.induct)
  case (6 d a st)
  have "pure_state (fold (dispose_upto d) xs st1)"
    if "set xs \<subseteq> set (subarrays st a)" "pure_state st1" for xs and st1 :: "signal list state"
    using that
  proof (induction xs arbitrary: st1)
    case Nil
    then show ?case by simp
  next
    case (Cons x xs)
    then show ?case
      using "6.IH" [of x st1] by auto
  qed
  then show ?case using "6.prems" by simp
qed (simp_all add: pure_state_queue pure_state_sel list_all_filterI)

lemma pure_dispose: "pure_state st \<Longrightarrow> pure_state (dispose s st)"
  by (simp add: dispose_def pure_dispose_upto)

lemma pure_take_release: "pure_state st \<Longrightarrow> pure_state (take_release a st)"
  by (auto simp: pure_dispose split: option.splits)

lemma pure_take_count: "pure_state (take_count a st) = pure_state st"
  by (simp add: pure_state_def)

lemma pure_all:
  "pure k \<Longrightarrow> pure_state st \<Longrightarrow> pure_state (snd (subscribe src k st))"
  "pure k \<Longrightarrow> pure_state st \<Longrightarrow> pure_state (subscribe_each os a k st)"
  "pure k \<Longrightarrow> pure_state st \<Longrightarrow> pure_state (deliver sig k st)"
  "pure k \<Longrightarrow> pure_state st \<Longrightarrow> pure_state (deliver_all sigs k st)"
proof (induction src k st and os a k st and sig k st and sigs k st
    rule: subscribe_subscribe_each_deliver_deliver_all.induct)
  case (11 tag sync batches k st)
  then show ?case
    using pure_state_sel(1) [of "deliver_all sync k st"]
    by (auto simp: Let_def pure_state_queue list_all_iff)
next
  case (15 sig a n k st)
  then show ?case
    by (auto simp: Let_def pure_take_release pure_take_count
        simp del: take_release_def take_count_def split: signal.splits)
qed (simp_all add: Let_def split_beta pure_state_queue pure_state_sel split: signal.splits)

lemma shift_buffers_simps [simp]:
  "shift_buffers d f 0 = d"
  "shift_buffers d f (Suc a) = f a"
  "(shift_buffers d f)(Suc a := x) = shift_buffers d (f(a := x))"
  "(shift_buffers d f)(0 := e) = shift_buffers e f"
  by (auto simp: shift_buffers_def fun_eq_iff fun_upd_apply split: nat.splits)

lemma joined_sel [simp]:
  "user (joined st) = join_log [] (user st)"
  "fresh (joined st) = fresh st"
  "fresh_buffer (joined st) = Suc (fresh_buffer st)"
  "flags (joined st) = flags st"
  "counters (joined st) = counters st"
  "subvars (joined st) = subvars st"
  "subarrays (joined st) = subarrays st"
  "buffers (joined st) = shift_buffers (nexts (user st)) (buffers st)"
  "host (joined st) = host st"
  "thrown (joined st) = thrown st"
  "timeouts (joined st) = map lift_task (timeouts st)"
  "intervals (joined st) = map (\<lambda>(h, k). (h, lift k)) (intervals st)"
  "listeners (joined st) = map (\<lambda>(e, n, h, k). (e, n, h, lift k)) (listeners st)"
  by (simp_all add: joined_def)

lemma joined_in:
  "joined (st\<lparr>fresh := fr\<rparr>) = (joined st)\<lparr>fresh := fr\<rparr>"
  "joined (st\<lparr>flags := fl\<rparr>) = (joined st)\<lparr>flags := fl\<rparr>"
  "joined (st\<lparr>counters := c\<rparr>) = (joined st)\<lparr>counters := c\<rparr>"
  "joined (st\<lparr>subvars := sv\<rparr>) = (joined st)\<lparr>subvars := sv\<rparr>"
  "joined (st\<lparr>subarrays := sa\<rparr>) = (joined st)\<lparr>subarrays := sa\<rparr>"
  "joined (st\<lparr>host := h\<rparr>) = (joined st)\<lparr>host := h\<rparr>"
  "joined (st\<lparr>thrown := x\<rparr>) = (joined st)\<lparr>thrown := x\<rparr>"
  "joined (st\<lparr>fresh_buffer := fb\<rparr>) = (joined st)\<lparr>fresh_buffer := Suc fb\<rparr>"
  "joined (st\<lparr>buffers := bf\<rparr>) = (joined st)\<lparr>buffers := shift_buffers (nexts (user st)) bf\<rparr>"
  "joined (st\<lparr>user := u\<rparr>) =
     (joined st)\<lparr>user := join_log [] u, buffers := shift_buffers (nexts u) (buffers st)\<rparr>"
  "joined (st\<lparr>timeouts := ts\<rparr>) = (joined st)\<lparr>timeouts := map lift_task ts\<rparr>"
  "joined (st\<lparr>intervals := is\<rparr>) = (joined st)\<lparr>intervals := map (\<lambda>(h, k). (h, lift k)) is\<rparr>"
  "joined (st\<lparr>listeners := ls\<rparr>) =
     (joined st)\<lparr>listeners := map (\<lambda>(e, n, h, k). (e, n, h, lift k)) ls\<rparr>"
  by (simp_all add: joined_def)


lemma joined_push [simp]:
  "push_subscription a s (joined st) = joined (push_subscription a s st)"
  by (simp add: push_subscription_def joined_in)

lemma joined_dispose_upto: "dispose_upto d s (joined st) = joined (dispose_upto d s st)"
proof (induction d s st rule: dispose_upto.induct)
  case (6 d a st)
  have "fold (dispose_upto d) xs (joined st1) = joined (fold (dispose_upto d) xs st1)"
    if "set xs \<subseteq> set (subarrays st a)" for xs and st1 :: "signal list state"
    using that
  proof (induction xs arbitrary: st1)
    case Nil
    then show ?case by simp
  next
    case (Cons x xs)
    then show ?case
      using "6.IH" [of x st1] by simp
  qed
  then show ?case by simp
qed (simp_all add: joined_in filter_map comp_def split_def)

lemma joined_dispose [simp]: "dispose s (joined st) = joined (dispose s st)"
  by (simp add: dispose_def joined_dispose_upto)





lemma pure_emit_values:
  "pure k \<Longrightarrow> pure_state st \<Longrightarrow> pure_state (emit_values a vs k st)"
  by (induction vs arbitrary: st) (simp_all add: pure_all)


lemma pure_run_task: "pure_task t \<Longrightarrow> pure_state st \<Longrightarrow> pure_state (run_task t st)"
  by (cases t) (simp_all add: pure_all pure_emit_values Let_def)


lemma pure_dispatch_to:
  "list_all (\<lambda>(e, n, h, k). pure k) ls \<Longrightarrow> pure_state st \<Longrightarrow>
   pure_state (dispatch_to ls ev st)"
  by (induction ls ev st rule: dispatch_to.induct) (simp_all add: pure_all)



lemma pure_map_of:
  "list_all (\<lambda>(h, k). pure k) xs \<Longrightarrow> map_of xs h = Some k \<Longrightarrow> pure k"
  by (auto simp: list_all_iff dest: map_of_SomeD)

lemma pure_step: "pure_state st \<Longrightarrow> pure_state (step ev st)"
proof (cases ev)
  case Timeout
  assume "pure_state st"
  then show ?thesis
    using Timeout pure_state_sel(1) [of st]
    by (cases "timeouts st") (simp_all add: pure_run_task pure_state_queue)
next
  case (Tick h)
  assume p: "pure_state st"
  show ?thesis
  proof (cases "map_of (intervals st) h")
    case None
    then show ?thesis using Tick p by simp
  next
    case (Some k)
    then have "pure k" using pure_state_sel(2) [OF p] by (rule pure_map_of [rotated])
    then show ?thesis using Tick Some p by (simp add: Let_def pure_all)
  qed
next
  case (Dispatch el name v)
  assume p: "pure_state st"
  then show ?thesis
    using Dispatch pure_state_sel(3) [OF p]
    by (simp add: pure_dispatch_to list_all_filterI)
qed


lemma pure_run: "pure_state st \<Longrightarrow> pure_state (run evs st)"
  unfolding run_def by (induction evs arbitrary: st) (simp_all add: pure_step)






end
